theory Spec2Isabelle
  imports Main "HOL-Library.AList"
begin

section \<open>The zwis cache engines\<close>

text \<open>
  The four cache engines of package zwis (MemoryCache, LRUCache, LFUCache, ARCCache) and
  the factory NewCache, as state-passing functions. Conventions of the embedding:
  \<^item> a Go \<^verbatim>\<open>interface{}\<close> value is an option, \<open>None\<close> being \<^verbatim>\<open>nil\<close>;
  \<^item> \<^verbatim>\<open>time.Now()\<close> is the argument \<open>now\<close> of every operation that reads the clock;
    instants and durations are integer nanosecond counts (the zero \<^verbatim>\<open>time.Time\<close> is 0,
    \<^verbatim>\<open>UnixNano()\<close> is the count itself);
  \<^item> a \<^verbatim>\<open>*list.Element\<close> is an address (a natural number); a \<^verbatim>\<open>container/list\<close> is the
    list of the addresses of its elements, front first; the objects behind the addresses
    live in a store that is zero-valued where nothing was allocated yet;
  \<^item> a run-time panic is the left injection of a sum; the \<^verbatim>\<open>error\<close> result of
    \<^verbatim>\<open>Set\<close>, \<^verbatim>\<open>Delete\<close> and \<^verbatim>\<open>Flush\<close> is \<^verbatim>\<open>nil\<close> on every return path of the
    source and is not carried around;
  \<^item> Go's \<^verbatim>\<open>int\<close> and \<^verbatim>\<open>int64\<close> are unbounded integers: the counters (frequencies,
    \<open>p\<close>, lengths) and the clock readings of a run stay far from \<open>2 ^ 63\<close>;
  \<^item> the field of a struct carries a prefix that names the struct (\<open>lru_cache\<close>,
    \<open>arc_cache\<close>), since the structs of the package share field names;
  \<^item> the mutexes are not modelled: every operation runs alone.
\<close>

type_synonym 'a iface = "'a option"

datatype panic = NilPointerDereference

subsection \<open>container/list on addresses\<close>

definition list_PushFront :: "nat \<Rightarrow> nat list \<Rightarrow> nat list" where
  "list_PushFront e l = e # l"

definition list_Remove :: "nat \<Rightarrow> nat list \<Rightarrow> nat list" where
  "list_Remove e l = remove1 e l"

definition list_MoveToFront :: "nat \<Rightarrow> nat list \<Rightarrow> nat list" where
  "list_MoveToFront e l = (if e \<in> set l then e # remove1 e l else l)"

definition list_Back :: "'a list \<Rightarrow> 'a option" where
  "list_Back l = (case l of [] \<Rightarrow> None | _ # _ \<Rightarrow> Some (last l))"

definition list_Len :: "'a list \<Rightarrow> int" where
  "list_Len l = int (length l)"

subsection \<open>MemoryCache\<close>

text \<open>
  The version of MemoryCache that keeps the expiration as \<^verbatim>\<open>UnixNano\<close>. The other version
  in the repository keeps a \<^verbatim>\<open>time.Time\<close> and tests \<^verbatim>\<open>IsZero\<close> instead of
  \<^verbatim>\<open>> 0\<close>; its \<^verbatim>\<open>Get\<close> takes the read lock and writes nothing either.
\<close>

record 'v item =
  item_value :: "'v iface"
  item_expiration :: int

record 'v MemoryCache =
  mem_items :: "string \<rightharpoonup> 'v item"

definition NewMemoryCache :: "'v MemoryCache" where
  "NewMemoryCache = \<lparr>mem_items = Map.empty\<rparr>"

definition MemoryCache_Get ::
  "'v MemoryCache \<Rightarrow> string \<Rightarrow> int \<Rightarrow> 'v iface \<times> bool \<times> 'v MemoryCache" where
  "MemoryCache_Get c key now =
     (case mem_items c key of
        None \<Rightarrow> (None, False, c)
      | Some it \<Rightarrow>
          if item_expiration it > 0 \<and> item_expiration it < now then (None, False, c)
          else (item_value it, True, c))"

definition MemoryCache_Set ::
  "'v MemoryCache \<Rightarrow> string \<Rightarrow> 'v iface \<Rightarrow> int \<Rightarrow> int \<Rightarrow> 'v MemoryCache" where
  "MemoryCache_Set c key val ttl now =
     (let expiration = (if ttl > 0 then now + ttl else 0)
      in c\<lparr>mem_items := (mem_items c)(key \<mapsto> \<lparr>item_value = val, item_expiration = expiration\<rparr>)\<rparr>)"

definition MemoryCache_Delete :: "'v MemoryCache \<Rightarrow> string \<Rightarrow> 'v MemoryCache" where
  "MemoryCache_Delete c key = c\<lparr>mem_items := (mem_items c)(key := None)\<rparr>"

definition MemoryCache_Clear :: "'v MemoryCache \<Rightarrow> 'v MemoryCache" where
  "MemoryCache_Clear c = c\<lparr>mem_items := Map.empty\<rparr>"

subsection \<open>LRUCache\<close>

record ('k, 'v) entry =
  entry_key :: "'k iface"
  entry_value :: "'v iface"
  entry_expiration :: int

record ('k, 'v) LRUCache =
  lru_capacity :: int
  lru_cache :: "'k iface \<rightharpoonup> nat"
  lru_list :: "nat list"
  lru_elems :: "nat \<Rightarrow> ('k, 'v) entry"
  lru_next :: nat

definition zero_entry :: "('k, 'v) entry" where
  "zero_entry = \<lparr>entry_key = None, entry_value = None, entry_expiration = 0\<rparr>"

definition NewLRUCache :: "int \<Rightarrow> ('k, 'v) LRUCache" where
  "NewLRUCache capacity =
     \<lparr>lru_capacity = capacity, lru_cache = Map.empty, lru_list = [],
      lru_elems = (\<lambda>_. zero_entry), lru_next = 0\<rparr>"

definition LRUCache_removeElement :: "('k, 'v) LRUCache \<Rightarrow> nat \<Rightarrow> ('k, 'v) LRUCache" where
  "LRUCache_removeElement lru elem =
     lru\<lparr>lru_list := list_Remove elem (lru_list lru),
         lru_cache := (lru_cache lru)(entry_key (lru_elems lru elem) := None)\<rparr>"

definition LRUCache_removeOldest :: "('k, 'v) LRUCache \<Rightarrow> ('k, 'v) LRUCache" where
  "LRUCache_removeOldest lru =
     (case list_Back (lru_list lru) of
        None \<Rightarrow> lru
      | Some oldest \<Rightarrow> LRUCache_removeElement lru oldest)"

definition LRUCache_Get ::
  "('k, 'v) LRUCache \<Rightarrow> 'k iface \<Rightarrow> int \<Rightarrow> 'v iface \<times> bool \<times> ('k, 'v) LRUCache" where
  "LRUCache_Get lru key now =
     (case lru_cache lru key of
        None \<Rightarrow> (None, False, lru)
      | Some elem \<Rightarrow>
          (let entry = lru_elems lru elem
           in if entry_expiration entry \<noteq> 0 \<and> entry_expiration entry < now
              then (None, False, LRUCache_removeElement lru elem)
              else (entry_value entry, True,
                    lru\<lparr>lru_list := list_MoveToFront elem (lru_list lru)\<rparr>)))"

definition LRUCache_Set ::
  "('k, 'v) LRUCache \<Rightarrow> 'k iface \<Rightarrow> 'v iface \<Rightarrow> int \<Rightarrow> int \<Rightarrow> ('k, 'v) LRUCache" where
  "LRUCache_Set lru key val ttl now =
     (let expiration = (if ttl > 0 then now + ttl else 0)
      in case lru_cache lru key of
           Some elem \<Rightarrow>
             lru\<lparr>lru_list := list_MoveToFront elem (lru_list lru),
                 lru_elems := (lru_elems lru)
                   (elem := (lru_elems lru elem)\<lparr>entry_value := val, entry_expiration := expiration\<rparr>)\<rparr>
         | None \<Rightarrow>
             (let lru1 = (if list_Len (lru_list lru) \<ge> lru_capacity lru
                          then LRUCache_removeOldest lru else lru);
                  elem = lru_next lru1
              in lru1\<lparr>lru_list := list_PushFront elem (lru_list lru1),
                      lru_elems := (lru_elems lru1)
                        (elem := \<lparr>entry_key = key, entry_value = val, entry_expiration = expiration\<rparr>),
                      lru_next := Suc elem,
                      lru_cache := (lru_cache lru1)(key \<mapsto> elem)\<rparr>))"

definition LRUCache_Delete :: "('k, 'v) LRUCache \<Rightarrow> 'k iface \<Rightarrow> ('k, 'v) LRUCache" where
  "LRUCache_Delete lru key =
     (case lru_cache lru key of
        Some elem \<Rightarrow> LRUCache_removeElement lru elem
      | None \<Rightarrow> lru)"

definition LRUCache_Clear :: "('k, 'v) LRUCache \<Rightarrow> ('k, 'v) LRUCache" where
  "LRUCache_Clear lru = lru\<lparr>lru_list := [], lru_cache := Map.empty\<rparr>"

subsection \<open>LFUCache\<close>

text \<open>
  \<^verbatim>\<open>items map[string]*lfuItem\<close> is an association list with one pair per key, so that
  \<^verbatim>\<open>len(c.items)\<close> is its length. A \<^verbatim>\<open>*freqNode\<close> is the frequency under which
  \<^verbatim>\<open>c.freqs\<close> holds the node, and the \<^verbatim>\<open>items\<close> of a node are the keys of its members:
  the source writes and deletes \<^verbatim>\<open>c.items[k]\<close> and \<^verbatim>\<open>node.items[k]\<close> for the same
  pointer, and reads only the key and the node of a member. Go ranges over a map in an
  order the run time chooses; the argument \<open>r\<close> of \<open>LFUCache_evict\<close> is that
  choice. Where a lookup that stands for a pointer dereference finds nothing (the node of
  an item in \<open>LFUCache_leaveNode\<close>, the item of a listed key in \<open>LFUCache_evict\<close>) the
  model leaves the state as it is; no reachable state gets there (\<open>LFU_linked_reachable\<close>,
  \<open>LFU_inv_reachable\<close>). The \<^verbatim>\<open>prev\<close>/\<^verbatim>\<open>next\<close> links of the nodes are written but
  never read by a decision of the cache (every write is guarded by a nil test) and are
  left out.
\<close>

record 'v lfuItem =
  lfuItem_key :: string
  lfuItem_value :: "'v iface"
  lfuItem_frequency :: int
  lfuItem_expiration :: int
  lfuItem_freqNode :: "int option"

record freqNode =
  freqNode_freq :: int
  freqNode_items :: "string list"

record 'v LFUCache =
  lfu_capacity :: int
  lfu_items :: "(string \<times> 'v lfuItem) list"
  lfu_freqs :: "int \<rightharpoonup> freqNode"
  lfu_minFreq :: int

definition NewLFUCache :: "int \<Rightarrow> 'v LFUCache" where
  "NewLFUCache capacity =
     \<lparr>lfu_capacity = capacity, lfu_items = [], lfu_freqs = Map.empty, lfu_minFreq = 0\<rparr>"

definition LFUCache_removeFreqNode :: "'v LFUCache \<Rightarrow> freqNode \<Rightarrow> 'v LFUCache" where
  "LFUCache_removeFreqNode c node = c\<lparr>lfu_freqs := (lfu_freqs c)(freqNode_freq node := None)\<rparr>"

text \<open>
  \<^verbatim>\<open>delete(item.freqNode.items, item.key)\<close> followed by the removal of the node when it
  became empty: the shared first half of \<^verbatim>\<open>incrementFreq\<close> and second half of
  \<^verbatim>\<open>remove\<close>. \<open>f\<close> is the node \<^verbatim>\<open>item.freqNode\<close> points to.
\<close>

definition LFUCache_leaveNode :: "'v LFUCache \<Rightarrow> int \<Rightarrow> string \<Rightarrow> 'v LFUCache" where
  "LFUCache_leaveNode c f key =
     (case lfu_freqs c f of
        None \<Rightarrow> c
      | Some node \<Rightarrow>
          (let node1 = node\<lparr>freqNode_items := removeAll key (freqNode_items node)\<rparr>;
               c1 = c\<lparr>lfu_freqs := (lfu_freqs c)(f \<mapsto> node1)\<rparr>
           in if length (freqNode_items node1) = 0 then LFUCache_removeFreqNode c1 node1 else c1))"

definition LFUCache_remove :: "'v LFUCache \<Rightarrow> 'v lfuItem \<Rightarrow> panic + 'v LFUCache" where
  "LFUCache_remove c item =
     (let c1 = c\<lparr>lfu_items := AList.delete (lfuItem_key item) (lfu_items c)\<rparr>
      in case lfuItem_freqNode item of
           None \<Rightarrow> Inl NilPointerDereference
         | Some f \<Rightarrow> Inr (LFUCache_leaveNode c1 f (lfuItem_key item)))"

definition LFUCache_incrementFreq :: "'v LFUCache \<Rightarrow> 'v lfuItem \<Rightarrow> panic + 'v LFUCache" where
  "LFUCache_incrementFreq c item =
     (let c1 = (case lfuItem_freqNode item of
                  None \<Rightarrow> c
                | Some f \<Rightarrow> LFUCache_leaveNode c f (lfuItem_key item));
          nextFreq = lfuItem_frequency item + 1;
          node1 = (case lfu_freqs c1 nextFreq of
                     Some node \<Rightarrow>
                       node\<lparr>freqNode_items := List.insert (lfuItem_key item) (freqNode_items node)\<rparr>
                   | None \<Rightarrow> \<lparr>freqNode_freq = nextFreq, freqNode_items = [lfuItem_key item]\<rparr>);
          item1 = item\<lparr>lfuItem_frequency := nextFreq, lfuItem_freqNode := Some nextFreq\<rparr>;
          c2 = c1\<lparr>lfu_freqs := (lfu_freqs c1)(nextFreq \<mapsto> node1),
                  lfu_items := AList.update (lfuItem_key item) item1 (lfu_items c1)\<rparr>
      in if lfuItem_frequency item1 = 1 then Inr (c2\<lparr>lfu_minFreq := 1\<rparr>)
         else if lfuItem_frequency item1 - 1 = lfu_minFreq c2 then
           (case lfu_freqs c2 (lfu_minFreq c2) of
              None \<Rightarrow> Inl NilPointerDereference
            | Some node \<Rightarrow>
                if length (freqNode_items node) = 0
                then Inr (c2\<lparr>lfu_minFreq := lfu_minFreq c2 + 1\<rparr>) else Inr c2)
         else Inr c2)"

definition LFUCache_evict :: "'v LFUCache \<Rightarrow> nat \<Rightarrow> panic + 'v LFUCache" where
  "LFUCache_evict c r =
     (case lfu_freqs c (lfu_minFreq c) of
        None \<Rightarrow> Inr c
      | Some node \<Rightarrow>
          (case freqNode_items node of
             [] \<Rightarrow> Inr c
           | _ # _ \<Rightarrow>
               (case map_of (lfu_items c)
                       (freqNode_items node ! (r mod length (freqNode_items node))) of
                  None \<Rightarrow> Inr c
                | Some item \<Rightarrow> LFUCache_remove c item)))"

definition LFUCache_Get ::
  "'v LFUCache \<Rightarrow> string \<Rightarrow> int \<Rightarrow> panic + ('v iface \<times> bool \<times> 'v LFUCache)" where
  "LFUCache_Get c key now =
     (case map_of (lfu_items c) key of
        Some item \<Rightarrow>
          if lfuItem_expiration item > 0 \<and> lfuItem_expiration item < now then
            (case LFUCache_remove c item of
               Inl e \<Rightarrow> Inl e
             | Inr c1 \<Rightarrow> Inr (None, False, c1))
          else
            (case LFUCache_incrementFreq c item of
               Inl e \<Rightarrow> Inl e
             | Inr c1 \<Rightarrow> Inr (lfuItem_value item, True, c1))
      | None \<Rightarrow> Inr (None, False, c))"

definition LFUCache_Set ::
  "'v LFUCache \<Rightarrow> string \<Rightarrow> 'v iface \<Rightarrow> int \<Rightarrow> int \<Rightarrow> nat \<Rightarrow> panic + 'v LFUCache" where
  "LFUCache_Set c key val ttl now r =
     (let expiration = (if ttl > 0 then now + ttl else 0)
      in case map_of (lfu_items c) key of
           Some item \<Rightarrow>
             (let item1 = item\<lparr>lfuItem_value := val, lfuItem_expiration := expiration\<rparr>
              in LFUCache_incrementFreq
                   (c\<lparr>lfu_items := AList.update key item1 (lfu_items c)\<rparr>) item1)
         | None \<Rightarrow>
             (case (if int (length (lfu_items c)) \<ge> lfu_capacity c
                    then LFUCache_evict c r else Inr c) of
                Inl e \<Rightarrow> Inl e
              | Inr c1 \<Rightarrow>
                  (let item = \<lparr>lfuItem_key = key, lfuItem_value = val, lfuItem_frequency = 0,
                               lfuItem_expiration = expiration, lfuItem_freqNode = None\<rparr>
                   in LFUCache_incrementFreq
                        (c1\<lparr>lfu_items := AList.update key item (lfu_items c1)\<rparr>) item)))"

definition LFUCache_Delete :: "'v LFUCache \<Rightarrow> string \<Rightarrow> panic + 'v LFUCache" where
  "LFUCache_Delete c key =
     (case map_of (lfu_items c) key of
        Some item \<Rightarrow> LFUCache_remove c item
      | None \<Rightarrow> Inr c)"

definition LFUCache_Flush :: "'v LFUCache \<Rightarrow> 'v LFUCache" where
  "LFUCache_Flush c = c\<lparr>lfu_items := [], lfu_freqs := Map.empty, lfu_minFreq := 0\<rparr>"

subsection \<open>ARCCache\<close>

text \<open>
  T1 and T2 are lists of element addresses, B1 and B2 lists of keys (their elements hold
  bare strings and nothing points to them). \<open>arc_elems\<close> gives the \<^verbatim>\<open>arcItem\<close> an
  element holds; \<^verbatim>\<open>PushFront(item)\<close> allocates the next address for the new element.
\<close>

record 'v arcItem =
  arcItem_key :: string
  arcItem_value :: "'v iface"
  arcItem_expiration :: int

record 'v ARCCache =
  arc_capacity :: int
  arc_p :: int
  arc_t1 :: "nat list"
  arc_t2 :: "nat list"
  arc_b1 :: "string list"
  arc_b2 :: "string list"
  arc_cache :: "string \<rightharpoonup> nat"
  arc_elems :: "nat \<Rightarrow> 'v arcItem"
  arc_next :: nat

definition zero_arcItem :: "'v arcItem" where
  "zero_arcItem = \<lparr>arcItem_key = [], arcItem_value = None, arcItem_expiration = 0\<rparr>"

definition NewARCCache :: "int \<Rightarrow> 'v ARCCache" where
  "NewARCCache capacity =
     \<lparr>arc_capacity = capacity, arc_p = 0, arc_t1 = [], arc_t2 = [], arc_b1 = [], arc_b2 = [],
      arc_cache = Map.empty, arc_elems = (\<lambda>_. zero_arcItem), arc_next = 0\<rparr>"

definition listContains :: "nat list \<Rightarrow> nat \<Rightarrow> bool" where
  "listContains l element = (element \<in> set l)"

definition listContainsKey :: "string list \<Rightarrow> string \<Rightarrow> bool" where
  "listContainsKey l key = (key \<in> set l)"

text \<open>Pushing a key on a ghost list and trimming the list to the capacity.\<close>

definition ghost_push :: "int \<Rightarrow> string \<Rightarrow> string list \<Rightarrow> string list" where
  "ghost_push capacity key b =
     (let b1 = key # b in if list_Len b1 > capacity then butlast b1 else b1)"

text \<open>
  \<^verbatim>\<open>c.t2.PushFront(item); c.cache[key] = c.t2.Front()\<close>: a new element for the item at
  the front of T2, and the map entry of \<open>key\<close> pointing to it.
\<close>

definition ARCCache_pushT2 :: "'v ARCCache \<Rightarrow> string \<Rightarrow> 'v arcItem \<Rightarrow> 'v ARCCache" where
  "ARCCache_pushT2 c key item =
     (let e = arc_next c
      in c\<lparr>arc_t2 := list_PushFront e (arc_t2 c),
            arc_elems := (arc_elems c)(e := item),
            arc_next := Suc e,
            arc_cache := (arc_cache c)(key \<mapsto> e)\<rparr>)"

definition ARCCache_pushT1 :: "'v ARCCache \<Rightarrow> string \<Rightarrow> 'v arcItem \<Rightarrow> 'v ARCCache" where
  "ARCCache_pushT1 c key item =
     (let e = arc_next c
      in c\<lparr>arc_t1 := list_PushFront e (arc_t1 c),
            arc_elems := (arc_elems c)(e := item),
            arc_next := Suc e,
            arc_cache := (arc_cache c)(key \<mapsto> e)\<rparr>)"

definition ARCCache_remove :: "'v ARCCache \<Rightarrow> string \<Rightarrow> 'v ARCCache" where
  "ARCCache_remove c key =
     (case arc_cache c key of
        None \<Rightarrow> c
      | Some elt \<Rightarrow>
          (let c1 =
             (if listContains (arc_t1 c) elt then
                c\<lparr>arc_t1 := list_Remove elt (arc_t1 c),
                   arc_b1 := ghost_push (arc_capacity c) key (arc_b1 c)\<rparr>
              else if listContains (arc_t2 c) elt then
                c\<lparr>arc_t2 := list_Remove elt (arc_t2 c),
                   arc_b2 := ghost_push (arc_capacity c) key (arc_b2 c)\<rparr>
              else c)
           in c1\<lparr>arc_cache := (arc_cache c1)(key := None)\<rparr>))"

definition ARCCache_replace :: "'v ARCCache \<Rightarrow> string \<Rightarrow> panic + 'v ARCCache" where
  "ARCCache_replace c key =
     (if list_Len (arc_t1 c) > 0 \<and>
         (list_Len (arc_t1 c) > arc_p c \<or>
          (listContainsKey (arc_b2 c) key \<and> list_Len (arc_t1 c) = arc_p c))
      then
        (case list_Back (arc_t1 c) of
           None \<Rightarrow> Inl NilPointerDereference
         | Some lru \<Rightarrow>
             Inr (c\<lparr>arc_t1 := list_Remove lru (arc_t1 c),
                     arc_b1 := ghost_push (arc_capacity c) (arcItem_key (arc_elems c lru)) (arc_b1 c),
                     arc_cache := (arc_cache c)(arcItem_key (arc_elems c lru) := None)\<rparr>))
      else
        (case list_Back (arc_t2 c) of
           None \<Rightarrow> Inl NilPointerDereference
         | Some lru \<Rightarrow>
             Inr (c\<lparr>arc_t2 := list_Remove lru (arc_t2 c),
                     arc_b2 := ghost_push (arc_capacity c) (arcItem_key (arc_elems c lru)) (arc_b2 c),
                     arc_cache := (arc_cache c)(arcItem_key (arc_elems c lru) := None)\<rparr>)))"

definition ARCCache_moveToT2 :: "'v ARCCache \<Rightarrow> string \<Rightarrow> 'v ARCCache" where
  "ARCCache_moveToT2 c key =
     (if key \<in> set (arc_b1 c) then c\<lparr>arc_b1 := remove1 key (arc_b1 c)\<rparr>
      else if key \<in> set (arc_b2 c) then c\<lparr>arc_b2 := remove1 key (arc_b2 c)\<rparr>
      else c)"

definition ARCCache_request :: "'v ARCCache \<Rightarrow> string \<Rightarrow> 'v ARCCache" where
  "ARCCache_request c key =
     (if listContainsKey (arc_b1 c) key then
        (let c1 = c\<lparr>arc_p := min (arc_capacity c)
                      (arc_p c + max (list_Len (arc_b2 c) div list_Len (arc_b1 c)) 1)\<rparr>;
             c2 = ARCCache_moveToT2 c1 key
         in ARCCache_pushT2 c2 key
              \<lparr>arcItem_key = key, arcItem_value = None, arcItem_expiration = 0\<rparr>)
      else if listContainsKey (arc_b2 c) key then
        (let c1 = c\<lparr>arc_p := max 0
                      (arc_p c - max (list_Len (arc_b1 c) div list_Len (arc_b2 c)) 1)\<rparr>;
             c2 = ARCCache_moveToT2 c1 key
         in ARCCache_pushT2 c2 key
              \<lparr>arcItem_key = key, arcItem_value = None, arcItem_expiration = 0\<rparr>)
      else c)"

text \<open>
  The promotion shared by the hit paths of \<^verbatim>\<open>Get\<close> and \<^verbatim>\<open>Set\<close>: an element of T1
  is removed and its item pushed on T2, an element of T2 moves to the front of T2.
\<close>

definition ARCCache_touch :: "'v ARCCache \<Rightarrow> string \<Rightarrow> nat \<Rightarrow> 'v ARCCache" where
  "ARCCache_touch c key elt =
     (if listContains (arc_t1 c) elt then
        ARCCache_pushT2 (c\<lparr>arc_t1 := list_Remove elt (arc_t1 c)\<rparr>) key (arc_elems c elt)
      else if listContains (arc_t2 c) elt then
        c\<lparr>arc_t2 := list_MoveToFront elt (arc_t2 c)\<rparr>
      else c)"

definition ARCCache_Get ::
  "'v ARCCache \<Rightarrow> string \<Rightarrow> int \<Rightarrow> 'v iface \<times> bool \<times> 'v ARCCache" where
  "ARCCache_Get c key now =
     (case arc_cache c key of
        Some elt \<Rightarrow>
          (let item = arc_elems c elt
           in if arcItem_expiration item > 0 \<and> arcItem_expiration item < now
              then (None, False, ARCCache_remove c key)
              else (arcItem_value item, True, ARCCache_touch c key elt))
      | None \<Rightarrow> (None, False, ARCCache_request c key))"

definition ARCCache_Set ::
  "'v ARCCache \<Rightarrow> string \<Rightarrow> 'v iface \<Rightarrow> int \<Rightarrow> int \<Rightarrow> panic + 'v ARCCache" where
  "ARCCache_Set c key val ttl now =
     (let expiration = (if ttl > 0 then now + ttl else 0)
      in case arc_cache c key of
           Some elt \<Rightarrow>
             (let c1 = c\<lparr>arc_elems := (arc_elems c)
                          (elt := (arc_elems c elt)\<lparr>arcItem_value := val,
                                                    arcItem_expiration := expiration\<rparr>)\<rparr>
              in Inr (ARCCache_touch c1 key elt))
         | None \<Rightarrow>
             (let c1 = ARCCache_request c key
              in case (if list_Len (arc_t1 c1) + list_Len (arc_t2 c1) \<ge> arc_capacity c1
                       then ARCCache_replace c1 key else Inr c1) of
                   Inl e \<Rightarrow> Inl e
                 | Inr c2 \<Rightarrow>
                     Inr (ARCCache_pushT1 c2 key
                            \<lparr>arcItem_key = key, arcItem_value = val,
                             arcItem_expiration = expiration\<rparr>)))"

definition ARCCache_Delete :: "'v ARCCache \<Rightarrow> string \<Rightarrow> 'v ARCCache" where
  "ARCCache_Delete c key = ARCCache_remove c key"

definition ARCCache_Flush :: "'v ARCCache \<Rightarrow> 'v ARCCache" where
  "ARCCache_Flush c =
     c\<lparr>arc_t1 := [], arc_t2 := [], arc_b1 := [], arc_b2 := [], arc_cache := Map.empty, arc_p := 0\<rparr>"

subsection \<open>NewCache\<close>

datatype 'v Cache =
    MemoryCacheOf "'v MemoryCache"
  | LRUCacheOf "(string, 'v) LRUCache"
  | LFUCacheOf "'v LFUCache"
  | ARCCacheOf "'v ARCCache"

datatype go_error = Errorf string

definition NewCache :: "string \<Rightarrow> int \<Rightarrow> 'v Cache option \<times> go_error option" where
  "NewCache cacheType capacity =
     (if cacheType = ''memory'' then (Some (MemoryCacheOf NewMemoryCache), None)
      else if cacheType = ''lru'' then (Some (LRUCacheOf (NewLRUCache capacity)), None)
      else if cacheType = ''lfu'' then (Some (LFUCacheOf (NewLFUCache capacity)), None)
      else if cacheType = ''arc'' then (Some (ARCCacheOf (NewARCCache capacity)), None)
      else (None, Some (Errorf (''unknown cache type: '' @ cacheType))))"

subsection \<open>Sequences of calls\<close>

text \<open>
  A caller's program is a list of calls. \<open>Set k v ttl now r\<close> carries the clock reading
  of the call and the run time's choice \<open>r\<close> (read by LFUCache only); \<open>Get k now\<close>
  carries the clock reading. A run stops at the first panic.
\<close>

datatype ('key, 'v) call =
    Set 'key "'v iface" int int nat
  | Get 'key int
  | Delete 'key
  | Flush

fun MemoryCache_call :: "'v MemoryCache \<Rightarrow> (string, 'v) call \<Rightarrow> panic + 'v MemoryCache" where
  "MemoryCache_call c (Set k v ttl now r) = Inr (MemoryCache_Set c k v ttl now)"
| "MemoryCache_call c (Get k now) = Inr (snd (snd (MemoryCache_Get c k now)))"
| "MemoryCache_call c (Delete k) = Inr (MemoryCache_Delete c k)"
| "MemoryCache_call c Flush = Inr (MemoryCache_Clear c)"

fun LRUCache_call ::
  "('k, 'v) LRUCache \<Rightarrow> ('k iface, 'v) call \<Rightarrow> panic + ('k, 'v) LRUCache" where
  "LRUCache_call c (Set k v ttl now r) = Inr (LRUCache_Set c k v ttl now)"
| "LRUCache_call c (Get k now) = Inr (snd (snd (LRUCache_Get c k now)))"
| "LRUCache_call c (Delete k) = Inr (LRUCache_Delete c k)"
| "LRUCache_call c Flush = Inr (LRUCache_Clear c)"

fun LFUCache_call :: "'v LFUCache \<Rightarrow> (string, 'v) call \<Rightarrow> panic + 'v LFUCache" where
  "LFUCache_call c (Set k v ttl now r) = LFUCache_Set c k v ttl now r"
| "LFUCache_call c (Get k now) =
     (case LFUCache_Get c k now of Inl e \<Rightarrow> Inl e | Inr res \<Rightarrow> Inr (snd (snd res)))"
| "LFUCache_call c (Delete k) = LFUCache_Delete c k"
| "LFUCache_call c Flush = Inr (LFUCache_Flush c)"

fun ARCCache_call :: "'v ARCCache \<Rightarrow> (string, 'v) call \<Rightarrow> panic + 'v ARCCache" where
  "ARCCache_call c (Set k v ttl now r) = ARCCache_Set c k v ttl now"
| "ARCCache_call c (Get k now) = Inr (snd (snd (ARCCache_Get c k now)))"
| "ARCCache_call c (Delete k) = Inr (ARCCache_Delete c k)"
| "ARCCache_call c Flush = Inr (ARCCache_Flush c)"

fun run :: "('s \<Rightarrow> 'c \<Rightarrow> panic + 's) \<Rightarrow> 's \<Rightarrow> 'c list \<Rightarrow> panic + 's" where
  "run step s [] = Inr s"
| "run step s (x # xs) = (case step s x of Inl e \<Rightarrow> Inl e | Inr s1 \<Rightarrow> run step s1 xs)"

text \<open>The keys of the items that the elements of a resident list of ARCCache hold.\<close>

definition ARCCache_keys :: "'v ARCCache \<Rightarrow> nat list \<Rightarrow> string list" where
  "ARCCache_keys c l = map (\<lambda>e. arcItem_key (arc_elems c e)) l"

subsection \<open>Well-formed states\<close>

text \<open>
  What holds of the LRU structure in every state a caller can reach (see
  \<open>LRU_inv_run\<close>): the elements of the list are pairwise different and allocated, the
  map sends the key of every listed entry to its element, and every element the map
  names is in the list under that key.
\<close>

definition LRU_inv :: "('k, 'v) LRUCache \<Rightarrow> bool" where
  "LRU_inv lru \<longleftrightarrow>
     distinct (lru_list lru) \<and>
     (\<forall>e \<in> set (lru_list lru).
        e < lru_next lru \<and> lru_cache lru (entry_key (lru_elems lru e)) = Some e) \<and>
     (\<forall>k e. lru_cache lru k = Some e \<longrightarrow>
        e \<in> set (lru_list lru) \<and> entry_key (lru_elems lru e) = k)"

text \<open>
  The same for the LFU structure (see \<open>LFU_inv_run\<close>): an item is stored under its own
  key and points to a node, and a key listed in the node of frequency \<open>f\<close> is the key of
  an item that points to that node.
\<close>

definition LFU_inv :: "'v LFUCache \<Rightarrow> bool" where
  "LFU_inv c \<longleftrightarrow>
     (\<forall>k item. map_of (lfu_items c) k = Some item \<longrightarrow>
        lfuItem_key item = k \<and> (\<exists>f. lfuItem_freqNode item = Some f)) \<and>
     (\<forall>f node k. lfu_freqs c f = Some node \<longrightarrow> k \<in> set (freqNode_items node) \<longrightarrow>
        (\<exists>item. map_of (lfu_items c) k = Some item \<and> lfuItem_freqNode item = Some f))"

text \<open>
  What the capacity bound of LFUCache rests on (see \<open>LFU_capacity_reachable\<close>): one pair
  per key in \<^verbatim>\<open>items\<close>, every item in the node of its own frequency, every node
  registered under its own frequency, and a non-empty bucket at \<^verbatim>\<open>minFreq\<close> whenever
  the cache is full.
\<close>

definition LFU_cap_inv :: "'v LFUCache \<Rightarrow> bool" where
  "LFU_cap_inv c \<longleftrightarrow>
     LFU_inv c \<and>
     distinct (map fst (lfu_items c)) \<and>
     (\<forall>k item. map_of (lfu_items c) k = Some item \<longrightarrow>
        lfuItem_freqNode item = Some (lfuItem_frequency item)) \<and>
     (\<forall>f node. lfu_freqs c f = Some node \<longrightarrow> freqNode_freq node = f) \<and>
     1 \<le> lfu_capacity c \<and>
     int (length (lfu_items c)) \<le> lfu_capacity c \<and>
     (lfu_capacity c \<le> int (length (lfu_items c)) \<longrightarrow>
        (\<exists>node. lfu_freqs c (lfu_minFreq c) = Some node \<and> freqNode_items node \<noteq> []))"

text \<open>
  Every item points to a node that \<^verbatim>\<open>freqs\<close> holds and that lists the key of the
  item (see \<open>LFU_linked_reachable\<close>).
\<close>

definition LFU_linked :: "'v LFUCache \<Rightarrow> bool" where
  "LFU_linked c \<longleftrightarrow>
     (\<forall>k item. map_of (lfu_items c) k = Some item \<longrightarrow>
        (\<exists>f node. lfuItem_freqNode item = Some f \<and> lfu_freqs c f = Some node \<and>
                  k \<in> set (freqNode_items node)))"

text \<open>
  And for the ARC structure (see \<open>ARC_inv_run\<close>): the elements of T1 and T2 are pairwise
  different and allocated, and every element the map names is in T1 or in T2 and holds
  an item with the key it is named under.
\<close>

definition ARC_inv :: "'v ARCCache \<Rightarrow> bool" where
  "ARC_inv c \<longleftrightarrow>
     distinct (arc_t1 c @ arc_t2 c) \<and>
     (\<forall>e \<in> set (arc_t1 c) \<union> set (arc_t2 c). e < arc_next c) \<and>
     (\<forall>k e. arc_cache c k = Some e \<longrightarrow>
        e \<in> set (arc_t1 c) \<union> set (arc_t2 c) \<and> arcItem_key (arc_elems c e) = k)"

text \<open>
  Every resident element of ARCCache is the element that the map names for its key. With
  \<open>ARC_inv\<close> this gives one resident element per key. Every call keeps it but a
  \<^verbatim>\<open>Set\<close> of a key that is in a ghost list and not in the map (see
  \<open>ARC_one_per_key_call\<close>).
\<close>

definition ARC_one_per_key :: "'v ARCCache \<Rightarrow> bool" where
  "ARC_one_per_key c \<longleftrightarrow>
     (\<forall>e \<in> set (arc_t1 c) \<union> set (arc_t2 c).
        arc_cache c (arcItem_key (arc_elems c e)) = Some e)"

text \<open>The entries of the list, most recently used first.\<close>

definition lru_entries :: "('k, 'v) LRUCache \<Rightarrow> ('k, 'v) entry list" where
  "lru_entries lru = map (lru_elems lru) (lru_list lru)"

text \<open>
  A \<^verbatim>\<open>Set\<close> call as the tuple (key, value, ttl, clock reading), the entry it stores,
  and a sequence of such calls.
\<close>

definition set_entry :: "'k iface \<times> 'v iface \<times> int \<times> int \<Rightarrow> ('k, 'v) entry" where
  "set_entry c =
     (case c of (k, v, ttl, now) \<Rightarrow>
        \<lparr>entry_key = k, entry_value = v,
         entry_expiration = (if ttl > 0 then now + ttl else 0)\<rparr>)"

definition LRUCache_Sets ::
  "('k, 'v) LRUCache \<Rightarrow> ('k iface \<times> 'v iface \<times> int \<times> int) list \<Rightarrow> ('k, 'v) LRUCache" where
  "LRUCache_Sets = foldl (\<lambda>lru c. case c of (k, v, ttl, now) \<Rightarrow> LRUCache_Set lru k v ttl now)"

section \<open>Properties\<close>

subsection \<open>Runs that leave the documented behaviour\<close>

text \<open>
  C1. The claim: on a validly constructed engine every Set, Get, Delete and Flush
  completes normally; in particular a Get after a Set of the same key and a repeated Set
  of the same key never fail. The code: LFUCache of capacity 1 panics in
  \<^verbatim>\<open>incrementFreq\<close> on \<^verbatim>\<open>Set a; Get a\<close> and on \<^verbatim>\<open>Set a; Set a\<close> (the node of
  frequency 1 was unlinked from \<^verbatim>\<open>c.freqs\<close> just before
  \<^verbatim>\<open>c.freqs[c.minFreq].items\<close> is read), and ARCCache of capacity 1 panics in
  \<^verbatim>\<open>replace\<close> on \<^verbatim>\<open>Set a; Set b; Get a; Delete a; Set c\<close> (T2 is empty when its back
  element is removed).
\<close>

theorem C1_operations_panic:
  "(case run LFUCache_call (NewLFUCache 1)
           [Set ''a'' (Some (1::nat)) 0 0 0, Get ''a'' 0] of
      Inl e \<Rightarrow> e = NilPointerDereference | Inr c \<Rightarrow> False) \<and>
   (case run LFUCache_call (NewLFUCache 1)
           [Set ''a'' (Some (1::nat)) 0 0 0, Set ''a'' (Some 2) 0 0 0] of
      Inl e \<Rightarrow> e = NilPointerDereference | Inr c \<Rightarrow> False) \<and>
   (case run ARCCache_call (NewARCCache 1)
           [Set ''a'' (Some (1::nat)) 0 0 0, Set ''b'' (Some 2) 0 0 0, Get ''a'' 0,
            Delete ''a'', Set ''c'' (Some 3) 0 0 0] of
      Inl e \<Rightarrow> e = NilPointerDereference | Inr c \<Rightarrow> False)"
  by code_simp

text \<open>
  C2. The claim: with capacity \<open>c \<ge> 1\<close> the number of resident entries never exceeds
  \<open>c\<close>. The code: ARCCache of capacity 1 holds two resident elements after
  \<^verbatim>\<open>Set a; Set b; Set a\<close>. The third Set finds \<open>a\<close> in B1, \<^verbatim>\<open>request\<close> pushes a
  placeholder for it on T2, \<^verbatim>\<open>replace\<close> evicts that placeholder again, and
  \<^verbatim>\<open>Set\<close> pushes \<open>a\<close> on T1 beside \<open>b\<close>.
\<close>

theorem C2_arc_exceeds_capacity:
  "(case run ARCCache_call (NewARCCache 1)
           [Set ''a'' (Some (1::nat)) 0 0 0, Set ''b'' (Some 2) 0 0 0,
            Set ''a'' (Some 3) 0 0 0] of
      Inl e \<Rightarrow> False
    | Inr c \<Rightarrow>
        arc_capacity c = 1 \<and> list_Len (arc_t1 c) + list_Len (arc_t2 c) = 2 \<and>
        ARCCache_keys c (arc_t1 c) = [''a'', ''b''])"
  by code_simp

text \<open>
  C3. The claim: a key that was evicted and never set again is never returned with
  found = true. The code: in ARCCache of capacity 1, \<^verbatim>\<open>Set a; Set b\<close> evicts \<open>a\<close> to
  B1; the first \<^verbatim>\<open>Get a\<close> misses and \<^verbatim>\<open>request\<close> leaves a placeholder without value
  in T2 and in the lookup map; the second \<^verbatim>\<open>Get a\<close> returns (nil, true).
\<close>

theorem C3_arc_get_returns_placeholder:
  "(case run ARCCache_call (NewARCCache 1)
           [Set ''a'' (Some (1::nat)) 0 0 0, Set ''b'' (Some 2) 0 0 0] of
      Inl e \<Rightarrow> False
    | Inr c \<Rightarrow>
        arc_cache c ''a'' = None \<and> arc_b1 c = [''a''] \<and>
        (case ARCCache_Get c ''a'' 0 of
           (v1, found1, c1) \<Rightarrow>
             v1 = None \<and> \<not> found1 \<and>
             (case ARCCache_Get c1 ''a'' 0 of
                (v2, found2, c2) \<Rightarrow> v2 = None \<and> found2)))"
  by code_simp

text \<open>
  C4. The claim: every key occurs in at most one of T1, T2, B1 and B2. The code: after
  \<^verbatim>\<open>Set a; Set b; Set a\<close> on ARCCache of capacity 1 the key \<open>a\<close> is in T1 and in B2;
  after \<^verbatim>\<open>Set a; Set b; Set c; Set a\<close> on capacity 2 it is in T1 and in T2.
\<close>

theorem C4_arc_key_in_two_lists:
  "(case run ARCCache_call (NewARCCache 1)
           [Set ''a'' (Some (1::nat)) 0 0 0, Set ''b'' (Some 2) 0 0 0,
            Set ''a'' (Some 3) 0 0 0] of
      Inl e \<Rightarrow> False
    | Inr c \<Rightarrow> ''a'' \<in> set (ARCCache_keys c (arc_t1 c)) \<and> ''a'' \<in> set (arc_b2 c)) \<and>
   (case run ARCCache_call (NewARCCache 2)
           [Set ''a'' (Some (1::nat)) 0 0 0, Set ''b'' (Some 2) 0 0 0,
            Set ''c'' (Some 3) 0 0 0, Set ''a'' (Some 4) 0 0 0] of
      Inl e \<Rightarrow> False
    | Inr c \<Rightarrow>
        ''a'' \<in> set (ARCCache_keys c (arc_t1 c)) \<and>
        ''a'' \<in> set (ARCCache_keys c (arc_t2 c)))"
  by code_simp

text \<open>
  C6. The claim: whenever an item exists, \<^verbatim>\<open>minFreq\<close> is the smallest frequency of a
  non-empty bucket. The code: after \<^verbatim>\<open>Set a; Set b; Get a; Delete b\<close> on LFUCache of
  capacity 2 the only item is \<open>a\<close> with frequency 2 in the bucket of frequency 2, and
  \<^verbatim>\<open>minFreq\<close> is still 1, the frequency of no bucket: \<^verbatim>\<open>remove\<close> never updates it.
\<close>

theorem C6_lfu_minFreq_stale:
  "(case run LFUCache_call (NewLFUCache 2)
           [Set ''a'' (Some (1::nat)) 0 0 0, Set ''b'' (Some 2) 0 0 0, Get ''a'' 0,
            Delete ''b''] of
      Inl e \<Rightarrow> False
    | Inr c \<Rightarrow>
        map fst (lfu_items c) = [''a''] \<and>
        map (\<lambda>kv. lfuItem_frequency (snd kv)) (lfu_items c) = [2] \<and>
        map_option freqNode_items (lfu_freqs c 2) = Some [''a''] \<and>
        lfu_freqs c 1 = None \<and>
        lfu_minFreq c = 1)"
  by code_simp

text \<open>
  C9. The claim: on every engine \<^verbatim>\<open>Set(k, v, ttl)\<close> followed at once by \<^verbatim>\<open>Get(k)\<close>
  returns (v, true) when the entry has not expired. The code: on a new LFUCache of
  capacity 2, \<^verbatim>\<open>Set(k, 7, 10)\<close> at time 100 succeeds and \<^verbatim>\<open>Get(k)\<close> at time 105
  panics instead of returning (7, true).
\<close>

theorem C9_lfu_set_get_panics:
  "(case LFUCache_Set (NewLFUCache 2) ''k'' (Some (7::nat)) 10 100 0 of
      Inl e \<Rightarrow> False
    | Inr c \<Rightarrow>
        map_option lfuItem_value (map_of (lfu_items c) ''k'') = Some (Some 7) \<and>
        (case LFUCache_Get c ''k'' 105 of
           Inl e \<Rightarrow> e = NilPointerDereference
         | Inr res \<Rightarrow> False))"
  by code_simp

subsection \<open>The factory\<close>

text \<open>
  C7, as the code has it. \<^verbatim>\<open>NewCache\<close> returns a cache and no error for each of the
  four recognised types, whatever the capacity is: the capacity is handed to the
  constructor unchecked. It returns no cache and an error for every other type.
\<close>

theorem C7_NewCache_dispatch:
  fixes r :: "'v Cache option \<times> go_error option"
  assumes "r = NewCache cacheType capacity"
  shows
  "(cacheType \<in> {''memory'', ''lru'', ''lfu'', ''arc''} \<longrightarrow> fst r \<noteq> None \<and> snd r = None) \<and>
   (cacheType \<notin> {''memory'', ''lru'', ''lfu'', ''arc''} \<longrightarrow> fst r = None \<and> snd r \<noteq> None) \<and>
   (cacheType = ''memory'' \<longrightarrow> fst r = Some (MemoryCacheOf NewMemoryCache)) \<and>
   (cacheType = ''lru'' \<longrightarrow> fst r = Some (LRUCacheOf (NewLRUCache capacity))) \<and>
   (cacheType = ''lfu'' \<longrightarrow> fst r = Some (LFUCacheOf (NewLFUCache capacity))) \<and>
   (cacheType = ''arc'' \<longrightarrow> fst r = Some (ARCCacheOf (NewARCCache capacity)))"
  using assms by (simp add: NewCache_def)

theorem C7_NewCache_dispatch_witness:
  "fst (NewCache ''lru'' 0 :: nat Cache option \<times> go_error option) =
     Some (LRUCacheOf (NewLRUCache 0)) \<and>
   snd (NewCache ''lru'' 0 :: nat Cache option \<times> go_error option) = None \<and>
   fst (NewCache ''redis'' 3 :: nat Cache option \<times> go_error option) = None \<and>
   snd (NewCache ''redis'' 3 :: nat Cache option \<times> go_error option) \<noteq> None"
  using C7_NewCache_dispatch [of "NewCache ''lru'' 0 :: nat Cache option \<times> go_error option" "''lru''" 0]
        C7_NewCache_dispatch [of "NewCache ''redis'' 3 :: nat Cache option \<times> go_error option" "''redis''" 3]
  by simp

text \<open>
  C7 as stated also wants a capacity \<open>\<le> 0\<close> with a recognised type reported as an
  error: \<^verbatim>\<open>NewCache\<close> returns no error for capacities 0 and -1.
\<close>

theorem C7_capacity_not_validated:
  "snd (NewCache ''lru'' 0 :: nat Cache option \<times> go_error option) = None \<and>
   snd (NewCache ''lfu'' (- 1) :: nat Cache option \<times> go_error option) = None \<and>
   snd (NewCache ''arc'' 0 :: nat Cache option \<times> go_error option) = None"
  by (simp add: NewCache_def)

subsection \<open>A lookup of an unknown key\<close>

text \<open>
  C10. On every engine, \<^verbatim>\<open>Get\<close> of a key that the lookup structure does not hold
  (and, for ARCCache, that is in neither ghost list) returns (nil, false) and leaves the
  whole state as it was.
\<close>

theorem C10_get_of_absent_key:
  "(mem_items m key = None \<longrightarrow> MemoryCache_Get m key now = (None, False, m)) \<and>
   (lru_cache lru k = None \<longrightarrow> LRUCache_Get lru k now = (None, False, lru)) \<and>
   (map_of (lfu_items lfu) key = None \<longrightarrow> LFUCache_Get lfu key now = Inr (None, False, lfu)) \<and>
   (arc_cache arc key = None \<and> key \<notin> set (arc_b1 arc) \<and> key \<notin> set (arc_b2 arc) \<longrightarrow>
      ARCCache_Get arc key now = (None, False, arc))"
  by (simp add: MemoryCache_Get_def LRUCache_Get_def LFUCache_Get_def ARCCache_Get_def
      ARCCache_request_def listContainsKey_def)

theorem C10_get_of_absent_key_witness:
  "MemoryCache_Get (MemoryCache_Set NewMemoryCache ''a'' (Some (1::nat)) 0 0) ''x'' 5 =
     (None, False, MemoryCache_Set NewMemoryCache ''a'' (Some 1) 0 0) \<and>
   LRUCache_Get (LRUCache_Set (NewLRUCache 2) (Some ''a'') (Some (1::nat)) 0 0) (Some ''x'') 5 =
     (None, False, LRUCache_Set (NewLRUCache 2) (Some ''a'') (Some 1) 0 0) \<and>
   LFUCache_Get
     \<lparr>lfu_capacity = 2,
      lfu_items = [(''a'', \<lparr>lfuItem_key = ''a'', lfuItem_value = Some (1::nat),
                            lfuItem_frequency = 1, lfuItem_expiration = 0,
                            lfuItem_freqNode = Some 1\<rparr>)],
      lfu_freqs = [1 \<mapsto> \<lparr>freqNode_freq = 1, freqNode_items = [''a'']\<rparr>],
      lfu_minFreq = 1\<rparr> ''x'' 5 =
     Inr (None, False,
       \<lparr>lfu_capacity = 2,
        lfu_items = [(''a'', \<lparr>lfuItem_key = ''a'', lfuItem_value = Some 1,
                              lfuItem_frequency = 1, lfuItem_expiration = 0,
                              lfuItem_freqNode = Some 1\<rparr>)],
        lfu_freqs = [1 \<mapsto> \<lparr>freqNode_freq = 1, freqNode_items = [''a'']\<rparr>],
        lfu_minFreq = 1\<rparr>) \<and>
   ARCCache_Get
     \<lparr>arc_capacity = 1, arc_p = 0, arc_t1 = [1], arc_t2 = [], arc_b1 = [''a''], arc_b2 = [],
      arc_cache = [''b'' \<mapsto> 1],
      arc_elems = (\<lambda>_. zero_arcItem)
        (1 := \<lparr>arcItem_key = ''b'', arcItem_value = Some (2::nat), arcItem_expiration = 0\<rparr>),
      arc_next = 2\<rparr> ''x'' 5 =
     (None, False,
       \<lparr>arc_capacity = 1, arc_p = 0, arc_t1 = [1], arc_t2 = [], arc_b1 = [''a''], arc_b2 = [],
        arc_cache = [''b'' \<mapsto> 1],
        arc_elems = (\<lambda>_. zero_arcItem)
          (1 := \<lparr>arcItem_key = ''b'', arcItem_value = Some 2, arcItem_expiration = 0\<rparr>),
        arc_next = 2\<rparr>)"
  using
    C10_get_of_absent_key [of "MemoryCache_Set NewMemoryCache ''a'' (Some (1::nat)) 0 0" "''x''" 5
      "LRUCache_Set (NewLRUCache 2) (Some ''a'') (Some (1::nat)) 0 0" "Some ''x''"
      "\<lparr>lfu_capacity = 2,
      lfu_items = [(''a'', \<lparr>lfuItem_key = ''a'', lfuItem_value = Some (1::nat),
                            lfuItem_frequency = 1, lfuItem_expiration = 0,
                            lfuItem_freqNode = Some 1\<rparr>)],
      lfu_freqs = [1 \<mapsto> \<lparr>freqNode_freq = 1, freqNode_items = [''a'']\<rparr>],
      lfu_minFreq = 1\<rparr>"
      "\<lparr>arc_capacity = 1, arc_p = 0, arc_t1 = [1], arc_t2 = [], arc_b1 = [''a''], arc_b2 = [],
      arc_cache = [''b'' \<mapsto> 1],
      arc_elems = (\<lambda>_. zero_arcItem)
        (1 := \<lparr>arcItem_key = ''b'', arcItem_value = Some (2::nat), arcItem_expiration = 0\<rparr>),
      arc_next = 2\<rparr>"]
  by (simp add: MemoryCache_Set_def NewMemoryCache_def LRUCache_Set_def NewLRUCache_def
      LRUCache_removeOldest_def list_Back_def list_Len_def list_PushFront_def)

subsection \<open>LRUCache: the invariant holds in every reachable state\<close>

lemma remove1_last: "distinct l \<Longrightarrow> l \<noteq> [] \<Longrightarrow> remove1 (last l) l = butlast l"
proof -
  assume d: "distinct l" and ne: "l \<noteq> []"
  from ne obtain ys y where l: "l = ys @ [y]"
    by (meson rev_exhaust)
  with d have "y \<notin> set ys" by simp
  then show ?thesis using l by (simp add: remove1_append)
qed

lemma LRU_inv_New: "LRU_inv (NewLRUCache n)"
  by (simp add: LRU_inv_def NewLRUCache_def)

lemma LRU_inv_removeElement:
  assumes inv: "LRU_inv lru" and e: "e \<in> set (lru_list lru)"
  shows "LRU_inv (LRUCache_removeElement lru e)"
proof -
  let ?l = "lru_list lru" and ?c = "lru_cache lru" and ?k0 = "entry_key (lru_elems lru e)"
  have d: "distinct ?l"
    and A: "\<And>x. x \<in> set ?l \<Longrightarrow> x < lru_next lru \<and> ?c (entry_key (lru_elems lru x)) = Some x"
    and B: "\<And>k x. ?c k = Some x \<Longrightarrow> x \<in> set ?l \<and> entry_key (lru_elems lru x) = k"
    using inv unfolding LRU_inv_def by blast+
  have key_inj: "x = e" if "x \<in> set ?l" "entry_key (lru_elems lru x) = ?k0" for x
  proof -
    have "?c ?k0 = Some x" using A[OF that(1)] that(2) by simp
    moreover have "?c ?k0 = Some e" using A[OF e] by simp
    ultimately show ?thesis by simp
  qed
  let ?s = "LRUCache_removeElement lru e"
  have sel: "lru_list ?s = remove1 e ?l" "lru_cache ?s = ?c(?k0 := None)"
    "lru_elems ?s = lru_elems lru" "lru_next ?s = lru_next lru"
    by (simp_all add: LRUCache_removeElement_def list_Remove_def)
  show ?thesis
    unfolding LRU_inv_def sel
  proof (intro conjI ballI allI impI)
    show "distinct (remove1 e ?l)" using d by simp
  next
    fix x assume "x \<in> set (remove1 e ?l)"
    with d have x: "x \<in> set ?l" "x \<noteq> e" by auto
    show "x < lru_next lru" using A[OF x(1)] by simp
    from x key_inj have "entry_key (lru_elems lru x) \<noteq> ?k0" by blast
    then show "(?c(?k0 := None)) (entry_key (lru_elems lru x)) = Some x"
      using A[OF x(1)] by simp
  next
    fix k x assume kx: "(?c(?k0 := None)) k = Some x"
    then have k: "k \<noteq> ?k0" by (cases "k = ?k0") simp_all
    with kx have "?c k = Some x" by simp
    from B[OF this] k have "x \<in> set ?l" and kk: "entry_key (lru_elems lru x) = k" and "x \<noteq> e"
      by auto
    with d show "x \<in> set (remove1 e ?l)" by simp
    show "entry_key (lru_elems lru x) = k" by (rule kk)
  qed
qed

lemma LRU_inv_MoveToFront:
  assumes inv: "LRU_inv lru"
  shows "LRU_inv (lru\<lparr>lru_list := list_MoveToFront e (lru_list lru)\<rparr>)"
  using inv unfolding LRU_inv_def list_MoveToFront_def by auto

lemma LRU_inv_Get: "LRU_inv lru \<Longrightarrow> LRU_inv (snd (snd (LRUCache_Get lru k now)))"
  unfolding LRUCache_Get_def
  by (auto simp: Let_def LRU_inv_MoveToFront LRU_inv_removeElement LRU_inv_def[of lru]
      split: option.splits)

lemma LRU_inv_Delete: "LRU_inv lru \<Longrightarrow> LRU_inv (LRUCache_Delete lru k)"
  unfolding LRUCache_Delete_def
  by (auto simp: LRU_inv_removeElement LRU_inv_def[of lru] split: option.splits)

lemma LRU_inv_Clear: "LRU_inv lru \<Longrightarrow> LRU_inv (LRUCache_Clear lru)"
  unfolding LRUCache_Clear_def LRU_inv_def by simp

lemma LRU_inv_removeOldest: "LRU_inv lru \<Longrightarrow> LRU_inv (LRUCache_removeOldest lru)"
  unfolding LRUCache_removeOldest_def list_Back_def
  by (auto simp: LRU_inv_removeElement split: list.splits)

lemma LRU_inv_push:
  assumes inv: "LRU_inv lru" and new: "lru_cache lru k = None" and en: "entry_key en = k"
  shows "LRU_inv (lru\<lparr>lru_list := list_PushFront (lru_next lru) (lru_list lru),
                      lru_elems := (lru_elems lru)(lru_next lru := en),
                      lru_next := Suc (lru_next lru),
                      lru_cache := (lru_cache lru)(k \<mapsto> lru_next lru)\<rparr>)"
proof -
  let ?l = "lru_list lru" and ?c = "lru_cache lru" and ?n = "lru_next lru"
  let ?el = "(lru_elems lru)(?n := en)"
  have d: "distinct ?l"
    and A: "\<And>x. x \<in> set ?l \<Longrightarrow> x < ?n \<and> ?c (entry_key (lru_elems lru x)) = Some x"
    and B: "\<And>k x. ?c k = Some x \<Longrightarrow> x \<in> set ?l \<and> entry_key (lru_elems lru x) = k"
    using inv unfolding LRU_inv_def by blast+
  have fresh: "?n \<notin> set ?l" using A by blast
  have 1: "distinct (?n # ?l)" using d fresh by simp
  have 2: "x < Suc ?n \<and> (?c(k \<mapsto> ?n)) (entry_key (?el x)) = Some x"
    if "x \<in> set (?n # ?l)" for x
  proof (cases "x = ?n")
    case True
    then show ?thesis using en by simp
  next
    case False
    with that have x: "x \<in> set ?l" by simp
    from A[OF x] new have "entry_key (lru_elems lru x) \<noteq> k" by auto
    with A[OF x] False show ?thesis by simp
  qed
  have 3: "x \<in> set (?n # ?l) \<and> entry_key (?el x) = k'"
    if "(?c(k \<mapsto> ?n)) k' = Some x" for k' x
  proof (cases "k' = k")
    case True
    with that en show ?thesis by simp
  next
    case False
    with that have "?c k' = Some x" by simp
    from B[OF this] fresh show ?thesis by auto
  qed
  let ?s = "lru\<lparr>lru_list := list_PushFront ?n ?l, lru_elems := ?el,
                 lru_next := Suc ?n, lru_cache := ?c(k \<mapsto> ?n)\<rparr>"
  have sel: "lru_list ?s = ?n # ?l" "lru_cache ?s = ?c(k \<mapsto> ?n)"
    "lru_elems ?s = ?el" "lru_next ?s = Suc ?n"
    by (simp_all add: list_PushFront_def)
  show ?thesis
    unfolding LRU_inv_def sel using 1 2 3 by blast
qed

lemma removeOldest_cache_None:
  "lru_cache lru k = None \<Longrightarrow> lru_cache (LRUCache_removeOldest lru) k = None"
  by (simp add: LRUCache_removeOldest_def LRUCache_removeElement_def split: option.splits)

lemma LRU_inv_overwrite:
  assumes inv: "LRU_inv lru"
  shows "LRU_inv (lru\<lparr>lru_elems := (lru_elems lru)
           (e := (lru_elems lru e)\<lparr>entry_value := v, entry_expiration := ex\<rparr>)\<rparr>)"
proof -
  let ?el = "(lru_elems lru)(e := (lru_elems lru e)\<lparr>entry_value := v, entry_expiration := ex\<rparr>)"
  have key_el: "entry_key (?el x) = entry_key (lru_elems lru x)" for x by simp
  show ?thesis
    using inv unfolding LRU_inv_def by (simp add: key_el del: fun_upd_apply)
qed

lemma LRU_inv_Set: 
  assumes inv: "LRU_inv lru"
  shows "LRU_inv (LRUCache_Set lru k v ttl now)"
proof (cases "lru_cache lru k")
  case None
  let ?lru1 = "if list_Len (lru_list lru) \<ge> lru_capacity lru
               then LRUCache_removeOldest lru else lru"
  have inv1: "LRU_inv ?lru1" using inv by (simp add: LRU_inv_removeOldest)
  have new1: "lru_cache ?lru1 k = None"
    using None by (simp add: removeOldest_cache_None)
  have "LRU_inv (?lru1\<lparr>lru_list := list_PushFront (lru_next ?lru1) (lru_list ?lru1),
                      lru_elems := (lru_elems ?lru1)(lru_next ?lru1 := \<lparr>entry_key = k, entry_value = v,
                        entry_expiration = (if ttl > 0 then now + ttl else 0)\<rparr>),
                      lru_next := Suc (lru_next ?lru1),
                      lru_cache := (lru_cache ?lru1)(k \<mapsto> lru_next ?lru1)\<rparr>)"
    by (rule LRU_inv_push[OF inv1 new1]) simp
  then show ?thesis
    using None by (simp add: LRUCache_Set_def Let_def)
next
  case (Some e)
  define ex where "ex = (if ttl > 0 then now + ttl else 0)"
  from LRU_inv_overwrite[OF LRU_inv_MoveToFront[OF inv, of e], where e = e and v = v and ex = ex]
  have "LRU_inv (lru\<lparr>lru_list := list_MoveToFront e (lru_list lru),
     lru_elems := (lru_elems lru)
       (e := (lru_elems lru e)\<lparr>entry_value := v, entry_expiration := ex\<rparr>)\<rparr>)"
    by simp
  then show ?thesis
    using Some unfolding LRUCache_Set_def Let_def ex_def by simp
qed

lemma LRU_inv_call: "LRU_inv c \<Longrightarrow> LRUCache_call c x = Inr c' \<Longrightarrow> LRU_inv c'"
  by (cases x) (auto simp: LRU_inv_Set LRU_inv_Get LRU_inv_Delete LRU_inv_Clear)

lemma LRU_inv_run: "LRU_inv c \<Longrightarrow> run LRUCache_call c xs = Inr c' \<Longrightarrow> LRU_inv c'"
proof (induction xs arbitrary: c)
  case Nil
  then show ?case by simp
next
  case (Cons x xs)
  then show ?case by (auto split: sum.splits dest: LRU_inv_call)
qed

subsection \<open>LRUCache: eviction order\<close>

text \<open>
  Setting pairwise different keys on a new cache of capacity \<open>N \<ge> 1\<close> leaves the
  entries of the last \<open>N\<close> calls in the list, the latest first.
\<close>

lemma entry_key_set_entry: "entry_key (set_entry c) = fst c"
  by (cases c) (simp add: set_entry_def)

lemma LRU_inv_cache_None:
  assumes inv: "LRU_inv lru" and k: "k \<notin> entry_key ` set (lru_entries lru)"
  shows "lru_cache lru k = None"
proof (cases "lru_cache lru k")
  case None
  then show ?thesis .
next
  case (Some e)
  with inv have "e \<in> set (lru_list lru)" "entry_key (lru_elems lru e) = k"
    unfolding LRU_inv_def by blast+
  then have "k \<in> entry_key ` set (lru_entries lru)"
    unfolding lru_entries_def by force
  with k show ?thesis by contradiction
qed

lemma LRU_inv_cache_Some:
  assumes inv: "LRU_inv lru" and en: "en \<in> set (lru_entries lru)"
  shows "\<exists>e. lru_cache lru (entry_key en) = Some e \<and> lru_elems lru e = en"
proof -
  from en obtain e where e: "e \<in> set (lru_list lru)" "lru_elems lru e = en"
    unfolding lru_entries_def by auto
  with inv have "lru_cache lru (entry_key (lru_elems lru e)) = Some e"
    unfolding LRU_inv_def by blast
  with e show ?thesis by auto
qed

lemma map_fun_upd_fresh: "n \<notin> set l \<Longrightarrow> map (f(n := x)) l = map f l"
  by (induction l) auto

lemma LRUCache_Set_new_entries:
  assumes inv: "LRU_inv lru" and new: "lru_cache lru k = None" and cap: "1 \<le> lru_capacity lru"
  shows "lru_entries (LRUCache_Set lru k v ttl now) =
           set_entry (k, v, ttl, now) #
             (if int (length (lru_list lru)) \<ge> lru_capacity lru
              then butlast (lru_entries lru) else lru_entries lru)"
proof -
  let ?l = "lru_list lru"
  let ?full = "int (length ?l) \<ge> lru_capacity lru"
  let ?lru1 = "if list_Len ?l \<ge> lru_capacity lru then LRUCache_removeOldest lru else lru"
  have d: "distinct ?l" and lt: "\<And>x. x \<in> set ?l \<Longrightarrow> x < lru_next lru"
    using inv unfolding LRU_inv_def by blast+
  have l1: "lru_list ?lru1 = (if ?full then butlast ?l else ?l)"
  proof (cases ?full)
    case True
    with cap have ne: "?l \<noteq> []" by auto
    then have "list_Back ?l = Some (last ?l)"
      by (simp add: list_Back_def split: list.splits)
    then show ?thesis
      using True remove1_last[OF d ne]
      by (simp add: list_Len_def LRUCache_removeOldest_def LRUCache_removeElement_def
          list_Remove_def)
  next
    case False
    then show ?thesis by (simp add: list_Len_def)
  qed
  have el1: "lru_elems ?lru1 = lru_elems lru" and n1: "lru_next ?lru1 = lru_next lru"
    by (simp_all add: LRUCache_removeOldest_def LRUCache_removeElement_def split: option.splits)
  define l1 where "l1 = lru_list ?lru1"
  have l1_eq: "l1 = (if ?full then butlast ?l else ?l)"
    unfolding l1_def by (rule l1)
  have "set l1 \<subseteq> set ?l"
    unfolding l1_eq by (auto dest: in_set_butlastD)
  with lt have fresh: "lru_next lru \<notin> set l1" by blast
  have "lru_entries (LRUCache_Set lru k v ttl now) =
          map ((lru_elems lru)(lru_next lru := set_entry (k, v, ttl, now))) (lru_next lru # l1)"
    using new el1 n1 unfolding l1_def
    by (simp add: LRUCache_Set_def Let_def lru_entries_def list_PushFront_def set_entry_def)
  also have "\<dots> = set_entry (k, v, ttl, now) # map (lru_elems lru) l1"
    by (simp add: map_fun_upd_fresh[OF fresh])
  also have "map (lru_elems lru) l1 =
               (if ?full then butlast (lru_entries lru) else lru_entries lru)"
    unfolding l1_eq lru_entries_def by (simp add: map_butlast)
  finally show ?thesis .
qed

lemma LRUCache_Set_capacity: "lru_capacity (LRUCache_Set lru k v ttl now) = lru_capacity lru"
  by (simp add: LRUCache_Set_def Let_def LRUCache_removeOldest_def LRUCache_removeElement_def
      split: option.splits)

lemma LRUCache_Sets_snoc:
  "LRUCache_Sets lru (cs @ [(k, v, ttl, now)]) = LRUCache_Set (LRUCache_Sets lru cs) k v ttl now"
  by (simp add: LRUCache_Sets_def)

lemma LRUCache_Sets_distinct:
  assumes cap: "1 \<le> N" and dist: "distinct (map fst cs)"
  shows "LRU_inv (LRUCache_Sets (NewLRUCache N) cs) \<and>
         lru_capacity (LRUCache_Sets (NewLRUCache N) cs) = N \<and>
         lru_entries (LRUCache_Sets (NewLRUCache N) cs) = take (nat N) (rev (map set_entry cs))"
  using dist
proof (induction cs rule: rev_induct)
  case Nil
  have "lru_capacity (NewLRUCache N) = N" "lru_entries (NewLRUCache N) = []"
    by (simp_all add: lru_entries_def NewLRUCache_def)
  then show ?case
    by (simp add: LRUCache_Sets_def LRU_inv_New)
next
  case (snoc c cs)
  obtain k v ttl now where c: "c = (k, v, ttl, now)" by (cases c) auto
  let ?s = "LRUCache_Sets (NewLRUCache N) cs"
  from snoc.prems have dcs: "distinct (map fst cs)" and knew: "k \<notin> fst ` set cs"
    by (simp_all add: c)
  from snoc.IH[OF dcs] have inv: "LRU_inv ?s" and capN: "lru_capacity ?s = N"
    and ents: "lru_entries ?s = take (nat N) (rev (map set_entry cs))" by simp_all
  have "k \<notin> entry_key ` set (lru_entries ?s)"
  proof
    assume "k \<in> entry_key ` set (lru_entries ?s)"
    then obtain en where en: "en \<in> set (take (nat N) (rev (map set_entry cs)))" "entry_key en = k"
      unfolding ents by auto
    from en(1) have "en \<in> set (rev (map set_entry cs))" by (rule in_set_takeD)
    then obtain c' where "c' \<in> set cs" "en = set_entry c'" by auto
    with en(2) have "k \<in> fst ` set cs" by (auto simp: entry_key_set_entry)
    with knew show False by contradiction
  qed
  from LRU_inv_cache_None[OF inv this] have new: "lru_cache ?s k = None" .
  have len: "length (lru_list ?s) = min (nat N) (length cs)"
    using arg_cong[OF ents, of length] by (simp add: lru_entries_def)
  have "lru_entries (LRUCache_Set ?s k v ttl now) =
          set_entry c # (if int (length (lru_list ?s)) \<ge> N
                         then butlast (lru_entries ?s) else lru_entries ?s)"
    using LRUCache_Set_new_entries[OF inv new, of v ttl now] cap capN c by simp
  also have "\<dots> = take (nat N) (set_entry c # rev (map set_entry cs))"
  proof (cases "int (length (lru_list ?s)) \<ge> N")
    case True
    with len cap have ge: "nat N \<le> length cs" by linarith
    obtain n where n: "nat N = Suc n" using cap by (cases "nat N") auto
    have "butlast (take (Suc n) (rev (map set_entry cs))) = take n (rev (map set_entry cs))"
      using ge n by (simp add: butlast_take)
    with True show ?thesis by (simp add: ents n)
  next
    case False
    with len have lt: "length cs < nat N" by linarith
    obtain n where n: "nat N = Suc n" using cap by (cases "nat N") auto
    with lt show ?thesis using False by (simp add: ents)
  qed
  finally have "lru_entries (LRUCache_Set ?s k v ttl now) =
                  take (nat N) (rev (map set_entry (cs @ [c])))" by simp
  then show ?case
    using LRU_inv_Set[OF inv, of k v ttl now] capN
    by (simp add: c LRUCache_Sets_snoc LRUCache_Set_capacity)
qed

text \<open>
  C8. On a new LRUCache of capacity \<open>N \<ge> 1\<close>, after \<open>N + 1\<close> calls of \<^verbatim>\<open>Set\<close>
  with pairwise different keys (\<open>c0\<close> the first call, \<open>cs\<close> the other \<open>N\<close>) and no
  \<^verbatim>\<open>Get\<close> between them, \<^verbatim>\<open>Get\<close> of the first key returns (nil, false) and
  \<^verbatim>\<open>Get\<close> of each other key returns its value with found = true, provided no entry has
  expired at the time \<open>now\<close> of the \<^verbatim>\<open>Get\<close>.
\<close>

theorem C8_lru_evicts_first_inserted:
  assumes cap: "1 \<le> N" and len: "length cs = nat N"
    and dist: "distinct (map fst (c0 # cs))"
    and live: "\<forall>c \<in> set cs. case c of (k, v, ttl, t) \<Rightarrow> ttl > 0 \<longrightarrow> now \<le> t + ttl"
  shows "LRUCache_Get (LRUCache_Sets (NewLRUCache N) (c0 # cs)) (fst c0) now =
           (None, False, LRUCache_Sets (NewLRUCache N) (c0 # cs)) \<and>
         (\<forall>c \<in> set cs. case c of (k, v, ttl, t) \<Rightarrow>
            \<exists>lru'. LRUCache_Get (LRUCache_Sets (NewLRUCache N) (c0 # cs)) k now = (v, True, lru'))"
proof -
  let ?s = "LRUCache_Sets (NewLRUCache N) (c0 # cs)"
  from LRUCache_Sets_distinct[OF cap dist]
  have inv: "LRU_inv ?s"
    and "lru_entries ?s = take (nat N) (rev (map set_entry (c0 # cs)))" by simp_all
  with len have ents: "lru_entries ?s = rev (map set_entry cs)" by simp
  have "entry_key ` set (lru_entries ?s) = fst ` set cs"
    unfolding ents by (simp add: image_image entry_key_set_entry)
  with dist have "fst c0 \<notin> entry_key ` set (lru_entries ?s)" by simp
  from LRU_inv_cache_None[OF inv this]
  have first: "LRUCache_Get ?s (fst c0) now = (None, False, ?s)"
    by (simp add: LRUCache_Get_def)
  have rest: "\<exists>lru'. LRUCache_Get ?s k now = (v, True, lru')"
    if c: "(k, v, ttl, t) \<in> set cs" for k v ttl t
  proof -
    from c have "set_entry (k, v, ttl, t) \<in> set (lru_entries ?s)"
      unfolding ents by simp
    from LRU_inv_cache_Some[OF inv this]
    obtain e where e: "lru_cache ?s k = Some e" "lru_elems ?s e = set_entry (k, v, ttl, t)"
      by (auto simp: entry_key_set_entry)
    from live c have "ttl > 0 \<longrightarrow> now \<le> t + ttl" by auto
    then have "\<not> (entry_expiration (set_entry (k, v, ttl, t)) \<noteq> 0 \<and>
                  entry_expiration (set_entry (k, v, ttl, t)) < now)"
      by (auto simp: set_entry_def)
    with e show ?thesis
      by (simp add: LRUCache_Get_def Let_def set_entry_def)
  qed
  from first rest show ?thesis by auto
qed

theorem C8_lru_evicts_first_inserted_witness:
  "LRUCache_Get (LRUCache_Sets (NewLRUCache 2)
       [(Some ''a'', Some (1::nat), 0, 0), (Some ''b'', Some 2, 0, 1), (Some ''c'', Some 3, 5, 2)])
     (Some ''a'') 4 =
     (None, False, LRUCache_Sets (NewLRUCache 2)
       [(Some ''a'', Some 1, 0, 0), (Some ''b'', Some 2, 0, 1), (Some ''c'', Some 3, 5, 2)]) \<and>
   (\<exists>lru'. LRUCache_Get (LRUCache_Sets (NewLRUCache 2)
       [(Some ''a'', Some (1::nat), 0, 0), (Some ''b'', Some 2, 0, 1), (Some ''c'', Some 3, 5, 2)])
     (Some ''b'') 4 = (Some 2, True, lru')) \<and>
   (\<exists>lru'. LRUCache_Get (LRUCache_Sets (NewLRUCache 2)
       [(Some ''a'', Some (1::nat), 0, 0), (Some ''b'', Some 2, 0, 1), (Some ''c'', Some 3, 5, 2)])
     (Some ''c'') 4 = (Some 3, True, lru'))"
  using C8_lru_evicts_first_inserted [of 2
      "[(Some ''b'', Some (2::nat), 0, 1), (Some ''c'', Some 3, 5, 2)]"
      "(Some ''a'', Some 1, 0, 0)" 4]
  by simp

subsection \<open>ARCCache: the invariant holds in every reachable state\<close>

lemma ARC_inv_New: "ARC_inv (NewARCCache n)"
  by (simp add: ARC_inv_def NewARCCache_def)

lemma ARC_inv_I:
  assumes "distinct (arc_t1 c @ arc_t2 c)"
    and "\<And>e. e \<in> set (arc_t1 c) \<union> set (arc_t2 c) \<Longrightarrow> e < arc_next c"
    and "\<And>k e. arc_cache c k = Some e \<Longrightarrow>
           e \<in> set (arc_t1 c) \<union> set (arc_t2 c) \<and> arcItem_key (arc_elems c e) = k"
  shows "ARC_inv c"
  using assms unfolding ARC_inv_def by blast

lemma ARC_inv_D:
  assumes "ARC_inv c"
  shows "distinct (arc_t1 c @ arc_t2 c)"
    and "\<And>e. e \<in> set (arc_t1 c) \<union> set (arc_t2 c) \<Longrightarrow> e < arc_next c"
    and "\<And>k e. arc_cache c k = Some e \<Longrightarrow> e \<in> set (arc_t1 c) \<union> set (arc_t2 c)"
    and "\<And>k e. arc_cache c k = Some e \<Longrightarrow> arcItem_key (arc_elems c e) = k"
  using assms unfolding ARC_inv_def by blast+

lemma ARC_inv_pushT2:
  assumes inv: "ARC_inv c" and key: "arcItem_key item = key"
  shows "ARC_inv (ARCCache_pushT2 c key item)"
proof -
  note D = ARC_inv_D[OF inv]
  have fresh: "arc_next c \<notin> set (arc_t1 c) \<union> set (arc_t2 c)" using D(2) by blast
  show ?thesis
  proof (rule ARC_inv_I)
    show "distinct (arc_t1 (ARCCache_pushT2 c key item) @ arc_t2 (ARCCache_pushT2 c key item))"
      using D(1) fresh by (simp add: ARCCache_pushT2_def Let_def list_PushFront_def)
  next
    fix e assume "e \<in> set (arc_t1 (ARCCache_pushT2 c key item)) \<union>
                     set (arc_t2 (ARCCache_pushT2 c key item))"
    then have "e = arc_next c \<or> e \<in> set (arc_t1 c) \<union> set (arc_t2 c)"
      by (auto simp: ARCCache_pushT2_def Let_def list_PushFront_def)
    then show "e < arc_next (ARCCache_pushT2 c key item)"
      using D(2) by (auto simp: ARCCache_pushT2_def Let_def less_Suc_eq)
  next
    fix k e assume ke: "arc_cache (ARCCache_pushT2 c key item) k = Some e"
    show "e \<in> set (arc_t1 (ARCCache_pushT2 c key item)) \<union>
               set (arc_t2 (ARCCache_pushT2 c key item)) \<and>
          arcItem_key (arc_elems (ARCCache_pushT2 c key item) e) = k"
    proof (cases "k = key")
      case True
      with ke key show ?thesis
        by (simp add: ARCCache_pushT2_def Let_def list_PushFront_def)
    next
      case False
      with ke have old: "arc_cache c k = Some e" by (simp add: ARCCache_pushT2_def Let_def)
      from D(3)[OF old] fresh have "e \<noteq> arc_next c" by blast
      with D(3)[OF old] D(4)[OF old] show ?thesis
        by (simp add: ARCCache_pushT2_def Let_def list_PushFront_def)
    qed
  qed
qed

lemma ARC_inv_pushT1:
  assumes inv: "ARC_inv c" and key: "arcItem_key item = key"
  shows "ARC_inv (ARCCache_pushT1 c key item)"
proof -
  note D = ARC_inv_D[OF inv]
  have fresh: "arc_next c \<notin> set (arc_t1 c) \<union> set (arc_t2 c)" using D(2) by blast
  show ?thesis
  proof (rule ARC_inv_I)
    show "distinct (arc_t1 (ARCCache_pushT1 c key item) @ arc_t2 (ARCCache_pushT1 c key item))"
      using D(1) fresh by (simp add: ARCCache_pushT1_def Let_def list_PushFront_def)
  next
    fix e assume "e \<in> set (arc_t1 (ARCCache_pushT1 c key item)) \<union>
                     set (arc_t2 (ARCCache_pushT1 c key item))"
    then have "e = arc_next c \<or> e \<in> set (arc_t1 c) \<union> set (arc_t2 c)"
      by (auto simp: ARCCache_pushT1_def Let_def list_PushFront_def)
    then show "e < arc_next (ARCCache_pushT1 c key item)"
      using D(2) by (auto simp: ARCCache_pushT1_def Let_def less_Suc_eq)
  next
    fix k e assume ke: "arc_cache (ARCCache_pushT1 c key item) k = Some e"
    show "e \<in> set (arc_t1 (ARCCache_pushT1 c key item)) \<union>
               set (arc_t2 (ARCCache_pushT1 c key item)) \<and>
          arcItem_key (arc_elems (ARCCache_pushT1 c key item) e) = k"
    proof (cases "k = key")
      case True
      with ke key show ?thesis
        by (simp add: ARCCache_pushT1_def Let_def list_PushFront_def)
    next
      case False
      with ke have old: "arc_cache c k = Some e" by (simp add: ARCCache_pushT1_def Let_def)
      from D(3)[OF old] fresh have "e \<noteq> arc_next c" by blast
      with D(3)[OF old] D(4)[OF old] show ?thesis
        by (simp add: ARCCache_pushT1_def Let_def list_PushFront_def)
    qed
  qed
qed

lemma ARC_inv_cong:
  assumes "ARC_inv c"
    and "arc_t1 c' = arc_t1 c" "arc_t2 c' = arc_t2 c" "arc_next c' = arc_next c"
    and "arc_cache c' = arc_cache c"
    and "\<And>e. arcItem_key (arc_elems c' e) = arcItem_key (arc_elems c e)"
  shows "ARC_inv c'"
  using assms unfolding ARC_inv_def by simp

text \<open>Unlinking elements from T1 or T2 together with the map entries that name them.\<close>

lemma ARC_inv_shrink:
  assumes inv: "ARC_inv c"
    and t1: "set (arc_t1 c') \<subseteq> set (arc_t1 c)" "distinct (arc_t1 c')"
    and t2: "set (arc_t2 c') \<subseteq> set (arc_t2 c)" "distinct (arc_t2 c')"
    and same: "arc_next c' = arc_next c" "arc_elems c' = arc_elems c"
    and cache: "\<And>k e. arc_cache c' k = Some e \<Longrightarrow>
                  arc_cache c k = Some e \<and> e \<in> set (arc_t1 c') \<union> set (arc_t2 c')"
  shows "ARC_inv c'"
proof -
  note D = ARC_inv_D[OF inv]
  show ?thesis
  proof (rule ARC_inv_I)
    have "set (arc_t1 c') \<inter> set (arc_t2 c') = {}" using D(1) t1(1) t2(1) by auto
    then show "distinct (arc_t1 c' @ arc_t2 c')" using t1(2) t2(2) by simp
  next
    fix e assume "e \<in> set (arc_t1 c') \<union> set (arc_t2 c')"
    then have "e \<in> set (arc_t1 c) \<union> set (arc_t2 c)" using t1(1) t2(1) by auto
    from D(2)[OF this] show "e < arc_next c'" by (simp add: same)
  next
    fix k e assume "arc_cache c' k = Some e"
    from cache[OF this] have old: "arc_cache c k = Some e"
      and mem: "e \<in> set (arc_t1 c') \<union> set (arc_t2 c')" by simp_all
    from mem D(4)[OF old]
    show "e \<in> set (arc_t1 c') \<union> set (arc_t2 c') \<and> arcItem_key (arc_elems c' e) = k"
      by (simp add: same)
  qed
qed

lemma ARC_inv_remove:
  assumes inv: "ARC_inv c"
  shows "ARC_inv (ARCCache_remove c key)"
proof (cases "arc_cache c key")
  case None
  then show ?thesis using inv by (simp add: ARCCache_remove_def)
next
  case (Some elt)
  note D = ARC_inv_D[OF inv]
  let ?c' = "ARCCache_remove c key"
  have d1: "distinct (arc_t1 c)" and d2: "distinct (arc_t2 c)" using D(1) by simp_all
  have t1: "arc_t1 ?c' = (if elt \<in> set (arc_t1 c) then remove1 elt (arc_t1 c) else arc_t1 c)"
    and t2: "arc_t2 ?c' = (if elt \<notin> set (arc_t1 c) \<and> elt \<in> set (arc_t2 c)
                            then remove1 elt (arc_t2 c) else arc_t2 c)"
    and ca: "arc_cache ?c' = (arc_cache c)(key := None)"
    and same: "arc_next ?c' = arc_next c" "arc_elems ?c' = arc_elems c"
    using Some by (simp_all add: ARCCache_remove_def Let_def listContains_def list_Remove_def)
  have disj: "elt \<in> set (arc_t1 c) \<Longrightarrow> elt \<notin> set (arc_t2 c)" using D(1) by auto
  show ?thesis
  proof (rule ARC_inv_shrink[OF inv _ _ _ _ same])
    show "set (arc_t1 ?c') \<subseteq> set (arc_t1 c)" unfolding t1 using d1 by auto
    show "distinct (arc_t1 ?c')" unfolding t1 using d1 by simp
    show "set (arc_t2 ?c') \<subseteq> set (arc_t2 c)" unfolding t2 using d2 by auto
    show "distinct (arc_t2 ?c')" unfolding t2 using d2 by simp
  next
    fix k e assume "arc_cache ?c' k = Some e"
    then have k: "k \<noteq> key" "arc_cache c k = Some e"
      unfolding ca by (auto split: if_splits)
    from D(4)[OF k(2)] D(4)[OF Some] k(1) have ne: "e \<noteq> elt" by auto
    from D(3)[OF k(2)] ne d1 d2
    have "e \<in> set (arc_t1 ?c') \<union> set (arc_t2 ?c')" unfolding t1 t2 by auto
    with k(2) show "arc_cache c k = Some e \<and> e \<in> set (arc_t1 ?c') \<union> set (arc_t2 ?c')"
      by simp
  qed
qed

lemma list_Back_mem: "list_Back l = Some x \<Longrightarrow> x \<in> set l"
  by (cases l) (auto simp: list_Back_def)

lemma ARC_inv_replace:
  assumes inv: "ARC_inv c" and ok: "ARCCache_replace c key = Inr c'"
  shows "ARC_inv c'"
proof -
  note D = ARC_inv_D[OF inv]
  have d1: "distinct (arc_t1 c)" and d2: "distinct (arc_t2 c)" using D(1) by simp_all
  have "\<exists>lru.
       ((lru \<in> set (arc_t1 c) \<and> arc_t1 c' = remove1 lru (arc_t1 c) \<and> arc_t2 c' = arc_t2 c) \<or>
        (lru \<in> set (arc_t2 c) \<and> arc_t2 c' = remove1 lru (arc_t2 c) \<and> arc_t1 c' = arc_t1 c)) \<and>
       arc_cache c' = (arc_cache c)(arcItem_key (arc_elems c lru) := None) \<and>
       arc_next c' = arc_next c \<and> arc_elems c' = arc_elems c"
  proof (cases "list_Len (arc_t1 c) > 0 \<and>
         (list_Len (arc_t1 c) > arc_p c \<or>
          (listContainsKey (arc_b2 c) key \<and> list_Len (arc_t1 c) = arc_p c))")
    case True
    with ok obtain lru where b: "list_Back (arc_t1 c) = Some lru"
      and c': "c' = c\<lparr>arc_t1 := list_Remove lru (arc_t1 c),
                     arc_b1 := ghost_push (arc_capacity c) (arcItem_key (arc_elems c lru)) (arc_b1 c),
                     arc_cache := (arc_cache c)(arcItem_key (arc_elems c lru) := None)\<rparr>"
      unfolding ARCCache_replace_def by (cases "list_Back (arc_t1 c)") auto
    from b have "lru \<in> set (arc_t1 c)" by (rule list_Back_mem)
    then show ?thesis unfolding c' by (intro exI[of _ lru]) (simp add: list_Remove_def)
  next
    case False
    with ok obtain lru where b: "list_Back (arc_t2 c) = Some lru"
      and c': "c' = c\<lparr>arc_t2 := list_Remove lru (arc_t2 c),
                     arc_b2 := ghost_push (arc_capacity c) (arcItem_key (arc_elems c lru)) (arc_b2 c),
                     arc_cache := (arc_cache c)(arcItem_key (arc_elems c lru) := None)\<rparr>"
      unfolding ARCCache_replace_def by (cases "list_Back (arc_t2 c)") auto
    from b have "lru \<in> set (arc_t2 c)" by (rule list_Back_mem)
    then show ?thesis unfolding c' by (intro exI[of _ lru]) (simp add: list_Remove_def)
  qed
  then obtain lru where
    c': "(lru \<in> set (arc_t1 c) \<and> arc_t1 c' = remove1 lru (arc_t1 c) \<and> arc_t2 c' = arc_t2 c) \<or>
         (lru \<in> set (arc_t2 c) \<and> arc_t2 c' = remove1 lru (arc_t2 c) \<and> arc_t1 c' = arc_t1 c)"
    and ca: "arc_cache c' = (arc_cache c)(arcItem_key (arc_elems c lru) := None)"
    and same: "arc_next c' = arc_next c" "arc_elems c' = arc_elems c"
    by blast
  show ?thesis
  proof (rule ARC_inv_shrink[OF inv _ _ _ _ same])
    show "set (arc_t1 c') \<subseteq> set (arc_t1 c)" using c' d1 by auto
    show "distinct (arc_t1 c')" using c' d1 by auto
    show "set (arc_t2 c') \<subseteq> set (arc_t2 c)" using c' d2 by auto
    show "distinct (arc_t2 c')" using c' d2 by auto
  next
    fix k e assume "arc_cache c' k = Some e"
    then have k: "k \<noteq> arcItem_key (arc_elems c lru)" "arc_cache c k = Some e"
      unfolding ca by (auto split: if_splits)
    from D(4)[OF k(2)] k(1) have ne: "e \<noteq> lru" by auto
    from D(3)[OF k(2)] ne d1 d2 c'
    have "e \<in> set (arc_t1 c') \<union> set (arc_t2 c')" by auto
    with k(2) show "arc_cache c k = Some e \<and> e \<in> set (arc_t1 c') \<union> set (arc_t2 c')"
      by simp
  qed
qed

lemma ARC_inv_request:
  assumes inv: "ARC_inv c"
  shows "ARC_inv (ARCCache_request c key)"
proof -
  have mv: "ARC_inv (ARCCache_moveToT2 (c\<lparr>arc_p := q\<rparr>) key)" for q
    by (rule ARC_inv_cong[OF inv]) (simp_all add: ARCCache_moveToT2_def)
  show ?thesis
    unfolding ARCCache_request_def Let_def
    using inv by (auto intro!: ARC_inv_pushT2 mv)
qed

lemma ARC_inv_touch:
  assumes inv: "ARC_inv c" and hit: "arc_cache c key = Some elt"
  shows "ARC_inv (ARCCache_touch c key elt)"
proof -
  note D = ARC_inv_D[OF inv]
  have d1: "distinct (arc_t1 c)" and d2: "distinct (arc_t2 c)" using D(1) by simp_all
  consider (t1) "elt \<in> set (arc_t1 c)" | (t2) "elt \<notin> set (arc_t1 c)" "elt \<in> set (arc_t2 c)"
    using D(3)[OF hit] by auto
  then show ?thesis
  proof cases
    case t1
    let ?n = "arc_next c"
    let ?c' = "ARCCache_touch c key elt"
    have sel: "arc_t1 ?c' = remove1 elt (arc_t1 c)" "arc_t2 ?c' = ?n # arc_t2 c"
      "arc_cache ?c' = (arc_cache c)(key \<mapsto> ?n)"
      "arc_elems ?c' = (arc_elems c)(?n := arc_elems c elt)" "arc_next ?c' = Suc ?n"
      using t1 by (simp_all add: ARCCache_touch_def ARCCache_pushT2_def Let_def listContains_def
          list_Remove_def list_PushFront_def)
    have fresh: "?n \<notin> set (arc_t1 c) \<union> set (arc_t2 c)" using D(2) by blast
    show ?thesis
    proof (rule ARC_inv_I)
      show "distinct (arc_t1 ?c' @ arc_t2 ?c')"
        unfolding sel using D(1) fresh by auto
    next
      fix e assume "e \<in> set (arc_t1 ?c') \<union> set (arc_t2 ?c')"
      then have "e = ?n \<or> e \<in> set (arc_t1 c) \<union> set (arc_t2 c)"
        unfolding sel using d1 by auto
      then show "e < arc_next ?c'" unfolding sel using D(2) by (auto simp: less_Suc_eq)
    next
      fix k e assume ke: "arc_cache ?c' k = Some e"
      show "e \<in> set (arc_t1 ?c') \<union> set (arc_t2 ?c') \<and> arcItem_key (arc_elems ?c' e) = k"
      proof (cases "k = key")
        case True
        with ke have "e = ?n" unfolding sel by simp
        then show ?thesis unfolding sel using True D(4)[OF hit] by simp
      next
        case False
        with ke have old: "arc_cache c k = Some e" unfolding sel by simp
        from D(4)[OF old] D(4)[OF hit] False have "e \<noteq> elt" by auto
        moreover from D(3)[OF old] fresh have "e \<noteq> ?n" by blast
        ultimately show ?thesis
          unfolding sel using D(3)[OF old] D(4)[OF old] d1 by auto
      qed
    qed
  next
    case t2
    have "ARC_inv (c\<lparr>arc_t2 := list_MoveToFront elt (arc_t2 c)\<rparr>)"
      using inv t2 d2 unfolding ARC_inv_def list_MoveToFront_def by auto
    then show ?thesis
      using t2 by (simp add: ARCCache_touch_def listContains_def)
  qed
qed

lemma ARC_inv_Get: "ARC_inv c \<Longrightarrow> ARC_inv (snd (snd (ARCCache_Get c key now)))"
  unfolding ARCCache_Get_def Let_def
  by (auto simp: ARC_inv_remove ARC_inv_touch ARC_inv_request split: option.splits)

lemma ARC_inv_Set:
  assumes inv: "ARC_inv c" and ok: "ARCCache_Set c key v ttl now = Inr c'"
  shows "ARC_inv c'"
proof (cases "arc_cache c key")
  case (Some elt)
  define ex where "ex = (if ttl > 0 then now + ttl else 0)"
  let ?c1 = "c\<lparr>arc_elems := (arc_elems c)
                (elt := (arc_elems c elt)\<lparr>arcItem_value := v, arcItem_expiration := ex\<rparr>)\<rparr>"
  have inv1: "ARC_inv ?c1"
    by (rule ARC_inv_cong[OF inv]) simp_all
  have "arc_cache ?c1 key = Some elt" using Some by simp
  from ARC_inv_touch[OF inv1 this]
  show ?thesis using ok Some unfolding ARCCache_Set_def Let_def ex_def by auto
next
  case None
  let ?c1 = "ARCCache_request c key"
  have inv1: "ARC_inv ?c1" using inv by (rule ARC_inv_request)
  from ok None obtain c2 where
    c2: "(if list_Len (arc_t1 ?c1) + list_Len (arc_t2 ?c1) \<ge> arc_capacity ?c1
          then ARCCache_replace ?c1 key else Inr ?c1) = Inr c2"
    and c': "c' = ARCCache_pushT1 c2 key
               \<lparr>arcItem_key = key, arcItem_value = v,
                arcItem_expiration = (if ttl > 0 then now + ttl else 0)\<rparr>"
    unfolding ARCCache_Set_def Let_def by (auto split: sum.splits)
  from c2 inv1 have "ARC_inv c2"
    by (auto split: if_splits dest: ARC_inv_replace)
  then show ?thesis unfolding c' by (rule ARC_inv_pushT1) simp
qed

lemma ARC_inv_Flush: "ARC_inv c \<Longrightarrow> ARC_inv (ARCCache_Flush c)"
  unfolding ARC_inv_def ARCCache_Flush_def by simp

lemma ARC_inv_call: "ARC_inv c \<Longrightarrow> ARCCache_call c x = Inr c' \<Longrightarrow> ARC_inv c'"
  by (cases x)
    (auto simp: ARC_inv_Get ARC_inv_remove ARC_inv_Flush ARCCache_Delete_def dest: ARC_inv_Set)

lemma ARC_inv_run: "ARC_inv c \<Longrightarrow> run ARCCache_call c xs = Inr c' \<Longrightarrow> ARC_inv c'"
proof (induction xs arbitrary: c)
  case Nil
  then show ?case by simp
next
  case (Cons x xs)
  then show ?case by (auto split: sum.splits dest: ARC_inv_call)
qed

subsection \<open>LFUCache: the invariant holds in every reachable state\<close>

lemma LFU_inv_New: "LFU_inv (NewLFUCache n)"
  by (simp add: LFU_inv_def NewLFUCache_def)

lemma LFU_inv_D:
  assumes "LFU_inv c"
  shows "\<And>k item. map_of (lfu_items c) k = Some item \<Longrightarrow> lfuItem_key item = k"
    and "\<And>k item. map_of (lfu_items c) k = Some item \<Longrightarrow> \<exists>f. lfuItem_freqNode item = Some f"
    and "\<And>f node k. lfu_freqs c f = Some node \<Longrightarrow> k \<in> set (freqNode_items node) \<Longrightarrow>
           \<exists>item. map_of (lfu_items c) k = Some item \<and> lfuItem_freqNode item = Some f"
  using assms unfolding LFU_inv_def by blast+

lemma leaveNode_items: "lfu_items (LFUCache_leaveNode c f key) = lfu_items c"
  by (simp add: LFUCache_leaveNode_def LFUCache_removeFreqNode_def Let_def split: option.splits)

lemma leaveNode_fields:
  "lfu_capacity (LFUCache_leaveNode c f key) = lfu_capacity c"
  "lfu_minFreq (LFUCache_leaveNode c f key) = lfu_minFreq c"
  by (simp_all add: LFUCache_leaveNode_def LFUCache_removeFreqNode_def Let_def split: option.splits)

lemma leaveNode_member:
  assumes "lfu_freqs (LFUCache_leaveNode c f key) f' = Some node'"
    and "k \<in> set (freqNode_items node')"
  shows "\<exists>node. lfu_freqs c f' = Some node \<and> k \<in> set (freqNode_items node) \<and>
                (f' = f \<longrightarrow> k \<noteq> key)"
proof (cases "lfu_freqs c f")
  case None
  with assms show ?thesis
    by (cases "f' = f") (simp_all add: LFUCache_leaveNode_def)
next
  case (Some node)
  show ?thesis
  proof (cases "f' = f")
    case True
    with assms Some show ?thesis
      by (auto simp: LFUCache_leaveNode_def LFUCache_removeFreqNode_def Let_def
          split: if_splits)
  next
    case False
    with assms Some show ?thesis
      by (auto simp: LFUCache_leaveNode_def LFUCache_removeFreqNode_def Let_def
          split: if_splits)
  qed
qed

lemma LFU_inv_remove:
  assumes inv: "LFU_inv c" and item: "map_of (lfu_items c) key = Some item"
  shows "\<exists>c'. LFUCache_remove c item = Inr c' \<and> LFU_inv c' \<and>
              map_of (lfu_items c') key = None \<and>
              (\<forall>f node. lfu_freqs c' f = Some node \<longrightarrow> key \<notin> set (freqNode_items node))"
proof -
  note D = LFU_inv_D[OF inv]
  from D(1)[OF item] have k: "lfuItem_key item = key" .
  from D(2)[OF item] obtain f where f: "lfuItem_freqNode item = Some f" by blast
  let ?c1 = "c\<lparr>lfu_items := AList.delete key (lfu_items c)\<rparr>"
  let ?c' = "LFUCache_leaveNode ?c1 f key"
  have eq: "LFUCache_remove c item = Inr ?c'"
    by (simp add: LFUCache_remove_def Let_def k f)
  have items': "map_of (lfu_items ?c') = (map_of (lfu_items c))(key := None)"
    by (simp add: leaveNode_items delete_conv')
  have mem: "k' \<noteq> key \<and> (\<exists>it. map_of (lfu_items c) k' = Some it \<and> lfuItem_freqNode it = Some f')"
    if "lfu_freqs ?c' f' = Some node'" "k' \<in> set (freqNode_items node')" for f' node' k'
  proof -
    from leaveNode_member[OF that] obtain node where
      node: "lfu_freqs c f' = Some node" "k' \<in> set (freqNode_items node)" "f' = f \<longrightarrow> k' \<noteq> key"
      by auto
    from D(3)[OF node(1) node(2)] obtain it where
      it: "map_of (lfu_items c) k' = Some it" "lfuItem_freqNode it = Some f'" by blast
    have "k' \<noteq> key"
    proof
      assume "k' = key"
      with it item f have "f' = f" by simp
      with node(3) \<open>k' = key\<close> show False by simp
    qed
    with it show ?thesis by blast
  qed
  have "LFU_inv ?c'"
    unfolding LFU_inv_def items'
  proof (intro conjI allI impI)
    fix k' it assume "((map_of (lfu_items c))(key := None)) k' = Some it"
    then have "map_of (lfu_items c) k' = Some it" by (auto split: if_splits)
    with D(1) D(2) show "lfuItem_key it = k'" "\<exists>f. lfuItem_freqNode it = Some f" by blast+
  next
    fix f' node' k'
    assume "lfu_freqs ?c' f' = Some node'" "k' \<in> set (freqNode_items node')"
    from mem[OF this]
    show "\<exists>it. ((map_of (lfu_items c))(key := None)) k' = Some it \<and> lfuItem_freqNode it = Some f'"
      by auto
  qed
  moreover have "map_of (lfu_items ?c') key = None" unfolding items' by simp
  moreover have "\<forall>f' node'. lfu_freqs ?c' f' = Some node' \<longrightarrow> key \<notin> set (freqNode_items node')"
    using mem by blast
  ultimately show ?thesis using eq by blast
qed

lemma LFU_inv_minFreq: "LFU_inv (c\<lparr>lfu_minFreq := m\<rparr>) = LFU_inv c"
  by (simp add: LFU_inv_def)

text \<open>
  \<open>incrementFreq\<close> is also called on an item that \<open>Set\<close> has just created and that
  points to no node yet; its precondition is the invariant without the node of that item.
\<close>

lemma LFU_inv_incrementFreq:
  assumes item: "map_of (lfu_items c) key = Some item" "lfuItem_key item = key"
    and keys: "\<And>k it. map_of (lfu_items c) k = Some it \<Longrightarrow> lfuItem_key it = k"
    and nodes: "\<And>k it. map_of (lfu_items c) k = Some it \<Longrightarrow> k \<noteq> key \<Longrightarrow>
                  \<exists>f. lfuItem_freqNode it = Some f"
    and members: "\<And>f node k. lfu_freqs c f = Some node \<Longrightarrow> k \<in> set (freqNode_items node) \<Longrightarrow>
                  \<exists>it. map_of (lfu_items c) k = Some it \<and> lfuItem_freqNode it = Some f"
    and ok: "LFUCache_incrementFreq c item = Inr c'"
  shows "LFU_inv c'"
proof -
  define c1 where "c1 = (case lfuItem_freqNode item of
                  None \<Rightarrow> c
                | Some f \<Rightarrow> LFUCache_leaveNode c f (lfuItem_key item))"
  define nf where "nf = lfuItem_frequency item + 1"
  define node1 where "node1 = (case lfu_freqs c1 nf of
                     Some node \<Rightarrow>
                       node\<lparr>freqNode_items := List.insert (lfuItem_key item) (freqNode_items node)\<rparr>
                   | None \<Rightarrow> \<lparr>freqNode_freq = nf, freqNode_items = [lfuItem_key item]\<rparr>)"
  define item1 where "item1 = item\<lparr>lfuItem_frequency := nf, lfuItem_freqNode := Some nf\<rparr>"
  define c2 where "c2 = c1\<lparr>lfu_freqs := (lfu_freqs c1)(nf \<mapsto> node1),
                  lfu_items := AList.update (lfuItem_key item) item1 (lfu_items c1)\<rparr>"
  have "\<exists>m. c' = c2\<lparr>lfu_minFreq := m\<rparr>"
  proof -
    have "LFUCache_incrementFreq c item =
            (if lfuItem_frequency item1 = 1 then Inr (c2\<lparr>lfu_minFreq := 1\<rparr>)
             else if lfuItem_frequency item1 - 1 = lfu_minFreq c2 then
               (case lfu_freqs c2 (lfu_minFreq c2) of
                  None \<Rightarrow> Inl NilPointerDereference
                | Some node \<Rightarrow>
                    if length (freqNode_items node) = 0
                    then Inr (c2\<lparr>lfu_minFreq := lfu_minFreq c2 + 1\<rparr>) else Inr c2)
             else Inr c2)"
      unfolding LFUCache_incrementFreq_def Let_def c1_def nf_def node1_def item1_def c2_def ..
    with ok have "c' = c2\<lparr>lfu_minFreq := 1\<rparr> \<or> c' = c2\<lparr>lfu_minFreq := lfu_minFreq c2 + 1\<rparr> \<or>
                  c' = c2"
      by (auto split: if_splits option.splits)
    moreover have "c2 = c2\<lparr>lfu_minFreq := lfu_minFreq c2\<rparr>" by simp
    ultimately show ?thesis by metis
  qed
  then obtain m where c': "c' = c2\<lparr>lfu_minFreq := m\<rparr>" ..
  have items1: "lfu_items c1 = lfu_items c"
    unfolding c1_def by (simp add: leaveNode_items split: option.splits)
  have items2: "map_of (lfu_items c2) = (map_of (lfu_items c))(key \<mapsto> item1)"
    unfolding c2_def by (simp add: items1 update_conv' item(2))
  have freqs2: "lfu_freqs c2 = (lfu_freqs c1)(nf \<mapsto> node1)"
    unfolding c2_def by simp
  have mem1: "k' \<noteq> key \<and> (\<exists>it. map_of (lfu_items c) k' = Some it \<and> lfuItem_freqNode it = Some f')"
    if "lfu_freqs c1 f' = Some node'" "k' \<in> set (freqNode_items node')" for f' node' k'
  proof (cases "lfuItem_freqNode item")
    case None
    with that have n: "lfu_freqs c f' = Some node'" unfolding c1_def by simp
    from members[OF n that(2)] obtain it where
      it: "map_of (lfu_items c) k' = Some it" "lfuItem_freqNode it = Some f'" by blast
    with None item(1) have "k' \<noteq> key" by auto
    with it show ?thesis by blast
  next
    case (Some f)
    with that have "lfu_freqs (LFUCache_leaveNode c f key) f' = Some node'"
      unfolding c1_def by (simp add: item(2))
    from leaveNode_member[OF this that(2)] obtain node where
      node: "lfu_freqs c f' = Some node" "k' \<in> set (freqNode_items node)" "f' = f \<longrightarrow> k' \<noteq> key"
      by auto
    from members[OF node(1) node(2)] obtain it where
      it: "map_of (lfu_items c) k' = Some it" "lfuItem_freqNode it = Some f'" by blast
    have "k' \<noteq> key"
    proof
      assume "k' = key"
      with it item(1) Some have "f' = f" by simp
      with node(3) \<open>k' = key\<close> show False by simp
    qed
    with it show ?thesis by blast
  qed
  have node1_items: "k' = key \<or> (\<exists>node. lfu_freqs c1 nf = Some node \<and> k' \<in> set (freqNode_items node))"
    if "k' \<in> set (freqNode_items node1)" for k'
    using that unfolding node1_def by (auto simp: item(2) split: option.splits)
  have "LFU_inv c2"
    unfolding LFU_inv_def items2 freqs2
  proof (intro conjI allI impI)
    fix k' it assume a: "((map_of (lfu_items c))(key \<mapsto> item1)) k' = Some it"
    show "lfuItem_key it = k'"
      using a keys item(2) by (cases "k' = key") (auto simp: item1_def)
    show "\<exists>f. lfuItem_freqNode it = Some f"
      using a nodes by (cases "k' = key") (auto simp: item1_def)
  next
    fix f' node' k'
    assume a: "((lfu_freqs c1)(nf \<mapsto> node1)) f' = Some node'" and k': "k' \<in> set (freqNode_items node')"
    show "\<exists>it. ((map_of (lfu_items c))(key \<mapsto> item1)) k' = Some it \<and> lfuItem_freqNode it = Some f'"
    proof (cases "f' = nf")
      case True
      with a have "node' = node1" by simp
      with k' node1_items
      consider "k' = key" | node where "lfu_freqs c1 nf = Some node" "k' \<in> set (freqNode_items node)"
        by blast
      then show ?thesis
      proof cases
        case 1
        then show ?thesis using True by (simp add: item1_def)
      next
        case 2
        from mem1[OF 2] True show ?thesis by auto
      qed
    next
      case False
      with a have "lfu_freqs c1 f' = Some node'" by simp
      from mem1[OF this k'] show ?thesis by auto
    qed
  qed
  then show ?thesis unfolding c' by (simp add: LFU_inv_minFreq)
qed

lemma LFU_inv_evict:
  assumes inv: "LFU_inv c" and ok: "LFUCache_evict c r = Inr c'"
  shows "LFU_inv c' \<and> (map_of (lfu_items c) key = None \<longrightarrow> map_of (lfu_items c') key = None)"
proof -
  have "c' = c \<or> (\<exists>k item. map_of (lfu_items c) k = Some item \<and> LFUCache_remove c item = Inr c')"
    using ok unfolding LFUCache_evict_def
    by (auto split: option.splits list.splits)
  then show ?thesis
  proof
    assume "c' = c"
    with inv show ?thesis by simp
  next
    assume "\<exists>k item. map_of (lfu_items c) k = Some item \<and> LFUCache_remove c item = Inr c'"
    then obtain k item where item: "map_of (lfu_items c) k = Some item"
      and rm: "LFUCache_remove c item = Inr c'" by blast
    from LFU_inv_remove[OF inv item] rm have inv': "LFU_inv c'" by auto
    from rm have "map_of (lfu_items c') = (map_of (lfu_items c))(lfuItem_key item := None)"
      by (auto simp: LFUCache_remove_def Let_def leaveNode_items delete_conv'
          split: option.splits)
    with inv' show ?thesis by simp
  qed
qed

lemma LFU_inv_Get:
  assumes inv: "LFU_inv c" and ok: "LFUCache_Get c key now = Inr (v, found, c')"
  shows "LFU_inv c'"
proof (cases "map_of (lfu_items c) key")
  case None
  with ok inv show ?thesis by (simp add: LFUCache_Get_def)
next
  case (Some item)
  note D = LFU_inv_D[OF inv]
  show ?thesis
  proof (cases "lfuItem_expiration item > 0 \<and> lfuItem_expiration item < now")
    case True
    with ok Some have "LFUCache_remove c item = Inr c'"
      by (auto simp: LFUCache_Get_def split: sum.splits)
    with LFU_inv_remove[OF inv Some] show ?thesis by auto
  next
    case False
    with ok Some have inc: "LFUCache_incrementFreq c item = Inr c'"
      by (auto simp: LFUCache_Get_def split: sum.splits)
    show ?thesis
      by (rule LFU_inv_incrementFreq[OF Some D(1)[OF Some] _ _ _ inc]) (use D in blast)+
  qed
qed

lemma LFU_inv_Set:
  assumes inv: "LFU_inv c" and ok: "LFUCache_Set c key v ttl now r = Inr c'"
  shows "LFU_inv c'"
proof (cases "map_of (lfu_items c) key")
  case (Some item)
  note D = LFU_inv_D[OF inv]
  define ex where "ex = (if ttl > 0 then now + ttl else 0)"
  define item1 where "item1 = item\<lparr>lfuItem_value := v, lfuItem_expiration := ex\<rparr>"
  define c0 where "c0 = c\<lparr>lfu_items := AList.update key item1 (lfu_items c)\<rparr>"
  from ok Some have inc: "LFUCache_incrementFreq c0 item1 = Inr c'"
    unfolding LFUCache_Set_def Let_def c0_def item1_def ex_def by simp
  have items0: "map_of (lfu_items c0) = (map_of (lfu_items c))(key \<mapsto> item1)"
    unfolding c0_def by (simp add: update_conv')
  have freqs0: "lfu_freqs c0 = lfu_freqs c" unfolding c0_def by simp
  have k1: "lfuItem_key item1 = key" unfolding item1_def using D(1)[OF Some] by simp
  have n1: "lfuItem_freqNode item1 = lfuItem_freqNode item" unfolding item1_def by simp
  show ?thesis
  proof (rule LFU_inv_incrementFreq[OF _ k1 _ _ _ inc])
    show "map_of (lfu_items c0) key = Some item1" unfolding items0 by simp
  next
    fix k it assume "map_of (lfu_items c0) k = Some it"
    then show "lfuItem_key it = k"
      unfolding items0 using k1 D(1) by (cases "k = key") auto
  next
    fix k it assume "map_of (lfu_items c0) k = Some it" "k \<noteq> key"
    then show "\<exists>f. lfuItem_freqNode it = Some f"
      unfolding items0 using D(2) by auto
  next
    fix f node k assume "lfu_freqs c0 f = Some node" "k \<in> set (freqNode_items node)"
    with D(3) obtain it where it: "map_of (lfu_items c) k = Some it" "lfuItem_freqNode it = Some f"
      unfolding freqs0 by blast
    show "\<exists>it. map_of (lfu_items c0) k = Some it \<and> lfuItem_freqNode it = Some f"
    proof (cases "k = key")
      case True
      with it Some n1 show ?thesis unfolding items0 by simp
    next
      case False
      with it show ?thesis unfolding items0 by simp
    qed
  qed
next
  case None
  define ex where "ex = (if ttl > 0 then now + ttl else 0)"
  define item0 where "item0 = \<lparr>lfuItem_key = key, lfuItem_value = v, lfuItem_frequency = 0,
                               lfuItem_expiration = ex, lfuItem_freqNode = None\<rparr>"
  from ok None obtain c1 where
    ev: "(if int (length (lfu_items c)) \<ge> lfu_capacity c then LFUCache_evict c r else Inr c) = Inr c1"
    and inc: "LFUCache_incrementFreq (c1\<lparr>lfu_items := AList.update key item0 (lfu_items c1)\<rparr>) item0
                = Inr c'"
    unfolding LFUCache_Set_def Let_def item0_def ex_def by (auto split: sum.splits)
  from ev inv None have inv1: "LFU_inv c1" and none1: "map_of (lfu_items c1) key = None"
    using LFU_inv_evict[of c r c1 key] by (auto split: if_splits)
  note D = LFU_inv_D[OF inv1]
  define c0 where "c0 = c1\<lparr>lfu_items := AList.update key item0 (lfu_items c1)\<rparr>"
  have items0: "map_of (lfu_items c0) = (map_of (lfu_items c1))(key \<mapsto> item0)"
    unfolding c0_def by (simp add: update_conv')
  have freqs0: "lfu_freqs c0 = lfu_freqs c1" unfolding c0_def by simp
  have k0: "lfuItem_key item0 = key" unfolding item0_def by simp
  from inc have inc0: "LFUCache_incrementFreq c0 item0 = Inr c'" unfolding c0_def .
  show ?thesis
  proof (rule LFU_inv_incrementFreq[OF _ k0 _ _ _ inc0])
    show "map_of (lfu_items c0) key = Some item0" unfolding items0 by simp
  next
    fix k it assume "map_of (lfu_items c0) k = Some it"
    then show "lfuItem_key it = k"
      unfolding items0 using k0 D(1) by (cases "k = key") auto
  next
    fix k it assume "map_of (lfu_items c0) k = Some it" "k \<noteq> key"
    then show "\<exists>f. lfuItem_freqNode it = Some f"
      unfolding items0 using D(2) by auto
  next
    fix f node k assume "lfu_freqs c0 f = Some node" "k \<in> set (freqNode_items node)"
    with D(3) obtain it where it: "map_of (lfu_items c1) k = Some it" "lfuItem_freqNode it = Some f"
      unfolding freqs0 by blast
    with none1 have "k \<noteq> key" by auto
    with it show "\<exists>it. map_of (lfu_items c0) k = Some it \<and> lfuItem_freqNode it = Some f"
      unfolding items0 by simp
  qed
qed

lemma LFU_inv_Delete:
  assumes inv: "LFU_inv c" and ok: "LFUCache_Delete c key = Inr c'"
  shows "LFU_inv c'"
proof (cases "map_of (lfu_items c) key")
  case None
  with ok inv show ?thesis by (simp add: LFUCache_Delete_def)
next
  case (Some item)
  with ok have "LFUCache_remove c item = Inr c'" by (simp add: LFUCache_Delete_def)
  with LFU_inv_remove[OF inv Some] show ?thesis by auto
qed

lemma LFU_inv_Flush: "LFU_inv (LFUCache_Flush c)"
  by (simp add: LFU_inv_def LFUCache_Flush_def)

lemma LFU_inv_call:
  assumes "LFU_inv c" and "LFUCache_call c x = Inr c'"
  shows "LFU_inv c'"
proof (cases x)
  case (Set k v ttl now r)
  with assms show ?thesis by (auto dest: LFU_inv_Set)
next
  case (Get k now)
  with assms obtain v found where "LFUCache_Get c k now = Inr (v, found, c')"
    by (auto split: sum.splits)
  with assms(1) show ?thesis by (rule LFU_inv_Get)
next
  case (Delete k)
  with assms show ?thesis by (auto dest: LFU_inv_Delete)
next
  case Flush
  with assms show ?thesis by (auto simp: LFU_inv_Flush)
qed

lemma LFU_inv_run: "LFU_inv c \<Longrightarrow> run LFUCache_call c xs = Inr c' \<Longrightarrow> LFU_inv c'"
proof (induction xs arbitrary: c)
  case Nil
  then show ?case by simp
next
  case (Cons x xs)
  then show ?case by (auto split: sum.splits dest: LFU_inv_call)
qed

subsection \<open>ARCCache: one resident element per key\<close>

lemma ARC_one_per_key_D:
  assumes "ARC_one_per_key c" and "e \<in> set (arc_t1 c) \<union> set (arc_t2 c)"
  shows "arc_cache c (arcItem_key (arc_elems c e)) = Some e"
  using assms unfolding ARC_one_per_key_def by blast

lemma ARC_one_per_key_single:
  assumes inv: "ARC_inv c" and one: "ARC_one_per_key c" and hit: "arc_cache c key = Some elt"
  shows "\<forall>e \<in> set (arc_t1 c) \<union> set (arc_t2 c). arcItem_key (arc_elems c e) = key \<longrightarrow> e = elt"
proof (intro ballI impI)
  fix e assume "e \<in> set (arc_t1 c) \<union> set (arc_t2 c)" "arcItem_key (arc_elems c e) = key"
  with ARC_one_per_key_D[OF one this(1)] hit show "e = elt" by simp
qed

lemma ARC_one_per_key_pushT2:
  assumes inv: "ARC_inv c" and one: "ARC_one_per_key c"
    and new: "arc_cache c key = None" and key: "arcItem_key item = key"
  shows "ARC_one_per_key (ARCCache_pushT2 c key item)"
proof -
  let ?n = "arc_next c" and ?c' = "ARCCache_pushT2 c key item"
  have sel: "arc_t1 ?c' = arc_t1 c" "arc_t2 ?c' = ?n # arc_t2 c"
    "arc_cache ?c' = (arc_cache c)(key \<mapsto> ?n)" "arc_elems ?c' = (arc_elems c)(?n := item)"
    by (simp_all add: ARCCache_pushT2_def Let_def list_PushFront_def)
  have fresh: "?n \<notin> set (arc_t1 c) \<union> set (arc_t2 c)" using ARC_inv_D(2)[OF inv] by blast
  show ?thesis
    unfolding ARC_one_per_key_def sel
  proof
    fix e assume e: "e \<in> set (arc_t1 c) \<union> set (?n # arc_t2 c)"
    show "((arc_cache c)(key \<mapsto> ?n)) (arcItem_key (((arc_elems c)(?n := item)) e)) = Some e"
    proof (cases "e = ?n")
      case True
      with key show ?thesis by simp
    next
      case False
      with e have old: "e \<in> set (arc_t1 c) \<union> set (arc_t2 c)" by auto
      from ARC_one_per_key_D[OF one old] new have "arcItem_key (arc_elems c e) \<noteq> key" by auto
      with ARC_one_per_key_D[OF one old] False show ?thesis by simp
    qed
  qed
qed

lemma ARC_one_per_key_pushT1:
  assumes inv: "ARC_inv c" and one: "ARC_one_per_key c"
    and new: "arc_cache c key = None" and key: "arcItem_key item = key"
  shows "ARC_one_per_key (ARCCache_pushT1 c key item)"
proof -
  let ?n = "arc_next c" and ?c' = "ARCCache_pushT1 c key item"
  have sel: "arc_t1 ?c' = ?n # arc_t1 c" "arc_t2 ?c' = arc_t2 c"
    "arc_cache ?c' = (arc_cache c)(key \<mapsto> ?n)" "arc_elems ?c' = (arc_elems c)(?n := item)"
    by (simp_all add: ARCCache_pushT1_def Let_def list_PushFront_def)
  have fresh: "?n \<notin> set (arc_t1 c) \<union> set (arc_t2 c)" using ARC_inv_D(2)[OF inv] by blast
  show ?thesis
    unfolding ARC_one_per_key_def sel
  proof
    fix e assume e: "e \<in> set (?n # arc_t1 c) \<union> set (arc_t2 c)"
    show "((arc_cache c)(key \<mapsto> ?n)) (arcItem_key (((arc_elems c)(?n := item)) e)) = Some e"
    proof (cases "e = ?n")
      case True
      with key show ?thesis by simp
    next
      case False
      with e have old: "e \<in> set (arc_t1 c) \<union> set (arc_t2 c)" by auto
      from ARC_one_per_key_D[OF one old] new have "arcItem_key (arc_elems c e) \<noteq> key" by auto
      with ARC_one_per_key_D[OF one old] False show ?thesis by simp
    qed
  qed
qed

text \<open>Unlinking elements and deleting the key of each unlinked element from the map.\<close>

lemma ARC_one_per_key_shrink:
  assumes one: "ARC_one_per_key c"
    and t1: "set (arc_t1 c') \<subseteq> set (arc_t1 c)" and t2: "set (arc_t2 c') \<subseteq> set (arc_t2 c)"
    and el: "arc_elems c' = arc_elems c"
    and keep: "\<And>e. e \<in> set (arc_t1 c') \<union> set (arc_t2 c') \<Longrightarrow>
                 arc_cache c' (arcItem_key (arc_elems c e)) = arc_cache c (arcItem_key (arc_elems c e))"
  shows "ARC_one_per_key c'"
  unfolding ARC_one_per_key_def
proof
  fix e assume e: "e \<in> set (arc_t1 c') \<union> set (arc_t2 c')"
  with t1 t2 have "e \<in> set (arc_t1 c) \<union> set (arc_t2 c)" by auto
  from ARC_one_per_key_D[OF one this] keep[OF e]
  show "arc_cache c' (arcItem_key (arc_elems c' e)) = Some e" by (simp add: el)
qed

lemma ARC_one_per_key_remove:
  assumes inv: "ARC_inv c" and one: "ARC_one_per_key c"
  shows "ARC_one_per_key (ARCCache_remove c key)"
proof (cases "arc_cache c key")
  case None
  then show ?thesis using one by (simp add: ARCCache_remove_def)
next
  case (Some elt)
  note D = ARC_inv_D[OF inv]
  have d1: "distinct (arc_t1 c)" and d2: "distinct (arc_t2 c)"
    and disj: "set (arc_t1 c) \<inter> set (arc_t2 c) = {}" using D(1) by simp_all
  let ?c' = "ARCCache_remove c key"
  have t1: "arc_t1 ?c' = (if elt \<in> set (arc_t1 c) then remove1 elt (arc_t1 c) else arc_t1 c)"
    and t2: "arc_t2 ?c' = (if elt \<notin> set (arc_t1 c) \<and> elt \<in> set (arc_t2 c)
                            then remove1 elt (arc_t2 c) else arc_t2 c)"
    and ca: "arc_cache ?c' = (arc_cache c)(key := None)"
    and el: "arc_elems ?c' = arc_elems c"
    using Some by (simp_all add: ARCCache_remove_def Let_def listContains_def list_Remove_def)
  have gone: "elt \<notin> set (arc_t1 ?c') \<union> set (arc_t2 ?c')"
    unfolding t1 t2 using d1 d2 disj D(3)[OF Some] by auto
  have sub: "set (arc_t1 ?c') \<subseteq> set (arc_t1 c)" "set (arc_t2 ?c') \<subseteq> set (arc_t2 c)"
    unfolding t1 t2 using d1 d2 by auto
  show ?thesis
  proof (rule ARC_one_per_key_shrink[OF one sub el])
    fix e assume e: "e \<in> set (arc_t1 ?c') \<union> set (arc_t2 ?c')"
    with sub have old: "e \<in> set (arc_t1 c) \<union> set (arc_t2 c)" by auto
    have "arcItem_key (arc_elems c e) \<noteq> key"
    proof
      assume "arcItem_key (arc_elems c e) = key"
      with ARC_one_per_key_D[OF one old] Some have "e = elt" by simp
      with e gone show False by simp
    qed
    then show "arc_cache ?c' (arcItem_key (arc_elems c e)) = arc_cache c (arcItem_key (arc_elems c e))"
      unfolding ca by simp
  qed
qed

lemma ARCCache_replace_cases:
  assumes ok: "ARCCache_replace c key = Inr c'"
  shows "\<exists>lru.
       ((lru \<in> set (arc_t1 c) \<and> arc_t1 c' = remove1 lru (arc_t1 c) \<and> arc_t2 c' = arc_t2 c) \<or>
        (lru \<in> set (arc_t2 c) \<and> arc_t2 c' = remove1 lru (arc_t2 c) \<and> arc_t1 c' = arc_t1 c)) \<and>
       arc_cache c' = (arc_cache c)(arcItem_key (arc_elems c lru) := None) \<and>
       arc_next c' = arc_next c \<and> arc_elems c' = arc_elems c"
proof (cases "list_Len (arc_t1 c) > 0 \<and>
       (list_Len (arc_t1 c) > arc_p c \<or>
        (listContainsKey (arc_b2 c) key \<and> list_Len (arc_t1 c) = arc_p c))")
  case True
  with ok obtain lru where b: "list_Back (arc_t1 c) = Some lru"
    and c': "c' = c\<lparr>arc_t1 := list_Remove lru (arc_t1 c),
                   arc_b1 := ghost_push (arc_capacity c) (arcItem_key (arc_elems c lru)) (arc_b1 c),
                   arc_cache := (arc_cache c)(arcItem_key (arc_elems c lru) := None)\<rparr>"
    unfolding ARCCache_replace_def by (cases "list_Back (arc_t1 c)") auto
  from b have "lru \<in> set (arc_t1 c)" by (rule list_Back_mem)
  then show ?thesis unfolding c' by (intro exI[of _ lru]) (simp add: list_Remove_def)
next
  case False
  with ok obtain lru where b: "list_Back (arc_t2 c) = Some lru"
    and c': "c' = c\<lparr>arc_t2 := list_Remove lru (arc_t2 c),
                   arc_b2 := ghost_push (arc_capacity c) (arcItem_key (arc_elems c lru)) (arc_b2 c),
                   arc_cache := (arc_cache c)(arcItem_key (arc_elems c lru) := None)\<rparr>"
    unfolding ARCCache_replace_def by (cases "list_Back (arc_t2 c)") auto
  from b have "lru \<in> set (arc_t2 c)" by (rule list_Back_mem)
  then show ?thesis unfolding c' by (intro exI[of _ lru]) (simp add: list_Remove_def)
qed

lemma ARC_one_per_key_replace:
  assumes inv: "ARC_inv c" and one: "ARC_one_per_key c" and ok: "ARCCache_replace c key = Inr c'"
  shows "ARC_one_per_key c'" and "arc_cache c k = None \<Longrightarrow> arc_cache c' k = None"
proof -
  note D = ARC_inv_D[OF inv]
  have d1: "distinct (arc_t1 c)" and d2: "distinct (arc_t2 c)"
    and disj: "set (arc_t1 c) \<inter> set (arc_t2 c) = {}" using D(1) by simp_all
  from ARCCache_replace_cases[OF ok] obtain lru where
    c': "(lru \<in> set (arc_t1 c) \<and> arc_t1 c' = remove1 lru (arc_t1 c) \<and> arc_t2 c' = arc_t2 c) \<or>
         (lru \<in> set (arc_t2 c) \<and> arc_t2 c' = remove1 lru (arc_t2 c) \<and> arc_t1 c' = arc_t1 c)"
    and ca: "arc_cache c' = (arc_cache c)(arcItem_key (arc_elems c lru) := None)"
    and el: "arc_elems c' = arc_elems c"
    by blast
  show "arc_cache c k = None \<Longrightarrow> arc_cache c' k = None" unfolding ca by simp
  have gone: "lru \<notin> set (arc_t1 c') \<union> set (arc_t2 c')"
    and sub: "set (arc_t1 c') \<subseteq> set (arc_t1 c)" "set (arc_t2 c') \<subseteq> set (arc_t2 c)"
    and lru: "lru \<in> set (arc_t1 c) \<union> set (arc_t2 c)"
  proof -
    from c' show "lru \<notin> set (arc_t1 c') \<union> set (arc_t2 c')"
    proof (elim disjE conjE)
      assume a: "lru \<in> set (arc_t1 c)" "arc_t1 c' = remove1 lru (arc_t1 c)" "arc_t2 c' = arc_t2 c"
      from a(1) disj have "lru \<notin> set (arc_t2 c)" by blast
      then show ?thesis unfolding a(2,3) using d1 by simp
    next
      assume a: "lru \<in> set (arc_t2 c)" "arc_t2 c' = remove1 lru (arc_t2 c)" "arc_t1 c' = arc_t1 c"
      from a(1) disj have "lru \<notin> set (arc_t1 c)" by blast
      then show ?thesis unfolding a(2,3) using d2 by simp
    qed
    from c' show "set (arc_t1 c') \<subseteq> set (arc_t1 c)"
    proof (elim disjE conjE)
      assume "arc_t1 c' = remove1 lru (arc_t1 c)"
      then show ?thesis by (simp add: set_remove1_subset)
    next
      assume "arc_t1 c' = arc_t1 c"
      then show ?thesis by simp
    qed
    from c' show "set (arc_t2 c') \<subseteq> set (arc_t2 c)"
    proof (elim disjE conjE)
      assume "arc_t2 c' = arc_t2 c"
      then show ?thesis by simp
    next
      assume "arc_t2 c' = remove1 lru (arc_t2 c)"
      then show ?thesis by (simp add: set_remove1_subset)
    qed
    from c' show "lru \<in> set (arc_t1 c) \<union> set (arc_t2 c)" by blast
  qed
  show "ARC_one_per_key c'"
  proof (rule ARC_one_per_key_shrink[OF one sub el])
    fix e assume e: "e \<in> set (arc_t1 c') \<union> set (arc_t2 c')"
    with sub have old: "e \<in> set (arc_t1 c) \<union> set (arc_t2 c)" by auto
    have "arcItem_key (arc_elems c e) \<noteq> arcItem_key (arc_elems c lru)"
    proof
      assume eq: "arcItem_key (arc_elems c e) = arcItem_key (arc_elems c lru)"
      have "Some e = arc_cache c (arcItem_key (arc_elems c e))"
        using ARC_one_per_key_D[OF one old] by simp
      also have "\<dots> = arc_cache c (arcItem_key (arc_elems c lru))" by (simp only: eq)
      also have "\<dots> = Some lru" using ARC_one_per_key_D[OF one lru] by simp
      finally have "e = lru" by simp
      with e gone show False by simp
    qed
    then show "arc_cache c' (arcItem_key (arc_elems c e)) = arc_cache c (arcItem_key (arc_elems c e))"
      unfolding ca by simp
  qed
qed

lemma ARC_one_per_key_cong:
  assumes "ARC_one_per_key c"
    and "arc_t1 c' = arc_t1 c" "arc_t2 c' = arc_t2 c" "arc_cache c' = arc_cache c"
    and "\<And>e. arcItem_key (arc_elems c' e) = arcItem_key (arc_elems c e)"
  shows "ARC_one_per_key c'"
  using assms unfolding ARC_one_per_key_def by simp

lemma ARC_one_per_key_request:
  assumes inv: "ARC_inv c" and one: "ARC_one_per_key c" and new: "arc_cache c key = None"
  shows "ARC_one_per_key (ARCCache_request c key)"
proof -
  have mv: "ARC_inv (ARCCache_moveToT2 (c\<lparr>arc_p := q\<rparr>) key) \<and>
            ARC_one_per_key (ARCCache_moveToT2 (c\<lparr>arc_p := q\<rparr>) key) \<and>
            arc_cache (ARCCache_moveToT2 (c\<lparr>arc_p := q\<rparr>) key) key = None" for q
  proof (intro conjI)
    show "ARC_inv (ARCCache_moveToT2 (c\<lparr>arc_p := q\<rparr>) key)"
      by (rule ARC_inv_cong[OF inv]) (simp_all add: ARCCache_moveToT2_def)
    show "ARC_one_per_key (ARCCache_moveToT2 (c\<lparr>arc_p := q\<rparr>) key)"
      by (rule ARC_one_per_key_cong[OF one]) (simp_all add: ARCCache_moveToT2_def)
    show "arc_cache (ARCCache_moveToT2 (c\<lparr>arc_p := q\<rparr>) key) key = None"
      using new by (simp add: ARCCache_moveToT2_def)
  qed
  show ?thesis
    unfolding ARCCache_request_def Let_def
    using one mv by (auto intro!: ARC_one_per_key_pushT2)
qed

lemma ARC_one_per_key_touch:
  assumes inv: "ARC_inv c" and one: "ARC_one_per_key c" and hit: "arc_cache c key = Some elt"
  shows "ARC_one_per_key (ARCCache_touch c key elt)"
proof -
  note D = ARC_inv_D[OF inv]
  have d1: "distinct (arc_t1 c)" and d2: "distinct (arc_t2 c)" using D(1) by simp_all
  consider (t1) "elt \<in> set (arc_t1 c)" | (t2) "elt \<notin> set (arc_t1 c)" "elt \<in> set (arc_t2 c)"
    using D(3)[OF hit] by auto
  then show ?thesis
  proof cases
    case t1
    let ?n = "arc_next c"
    let ?c' = "ARCCache_touch c key elt"
    have sel: "arc_t1 ?c' = remove1 elt (arc_t1 c)" "arc_t2 ?c' = ?n # arc_t2 c"
      "arc_cache ?c' = (arc_cache c)(key \<mapsto> ?n)"
      "arc_elems ?c' = (arc_elems c)(?n := arc_elems c elt)"
      using t1 by (simp_all add: ARCCache_touch_def ARCCache_pushT2_def Let_def listContains_def
          list_Remove_def list_PushFront_def)
    have fresh: "?n \<notin> set (arc_t1 c) \<union> set (arc_t2 c)" using D(2) by blast
    from t1 D(1) have not2: "elt \<notin> set (arc_t2 c)" by auto
    show ?thesis
      unfolding ARC_one_per_key_def sel
    proof
      fix e assume e: "e \<in> set (remove1 elt (arc_t1 c)) \<union> set (?n # arc_t2 c)"
      show "((arc_cache c)(key \<mapsto> ?n))
              (arcItem_key (((arc_elems c)(?n := arc_elems c elt)) e)) = Some e"
      proof (cases "e = ?n")
        case True
        with D(4)[OF hit] show ?thesis by simp
      next
        case False
        with e d1 not2 have old: "e \<in> set (arc_t1 c) \<union> set (arc_t2 c)" and ne: "e \<noteq> elt"
          by auto
        have "arcItem_key (arc_elems c e) \<noteq> key"
        proof
          assume "arcItem_key (arc_elems c e) = key"
          with ARC_one_per_key_D[OF one old] hit have "e = elt" by simp
          with ne show False by simp
        qed
        with ARC_one_per_key_D[OF one old] False show ?thesis by simp
      qed
    qed
  next
    case t2
    have "ARC_one_per_key (c\<lparr>arc_t2 := list_MoveToFront elt (arc_t2 c)\<rparr>)"
      using one t2 d2 unfolding ARC_one_per_key_def list_MoveToFront_def by auto
    then show ?thesis
      using t2 by (simp add: ARCCache_touch_def listContains_def)
  qed
qed

lemma ARC_one_per_key_Get:
  assumes inv: "ARC_inv c" and one: "ARC_one_per_key c"
  shows "ARC_one_per_key (snd (snd (ARCCache_Get c key now)))"
proof (cases "arc_cache c key")
  case None
  with ARC_one_per_key_request[OF inv one None] show ?thesis
    by (simp add: ARCCache_Get_def)
next
  case (Some elt)
  with ARC_one_per_key_remove[OF inv one, of key] ARC_one_per_key_touch[OF inv one Some]
  show ?thesis by (simp add: ARCCache_Get_def Let_def)
qed

text \<open>
  \<^verbatim>\<open>Set\<close> keeps one resident element per key when the key is in the map or in neither
  ghost list. The remaining case, a key that \<^verbatim>\<open>request\<close> finds in B1 or B2, is the double
  insertion of C4.
\<close>

lemma ARC_one_per_key_Set:
  assumes inv: "ARC_inv c" and one: "ARC_one_per_key c"
    and ok: "ARCCache_Set c key v ttl now = Inr c'"
    and noghost: "arc_cache c key \<noteq> None \<or> (key \<notin> set (arc_b1 c) \<and> key \<notin> set (arc_b2 c))"
  shows "ARC_one_per_key c'"
proof (cases "arc_cache c key")
  case (Some elt)
  define ex where "ex = (if ttl > 0 then now + ttl else 0)"
  let ?c1 = "c\<lparr>arc_elems := (arc_elems c)
                (elt := (arc_elems c elt)\<lparr>arcItem_value := v, arcItem_expiration := ex\<rparr>)\<rparr>"
  have inv1: "ARC_inv ?c1" by (rule ARC_inv_cong[OF inv]) simp_all
  have one1: "ARC_one_per_key ?c1" by (rule ARC_one_per_key_cong[OF one]) simp_all
  have "arc_cache ?c1 key = Some elt" using Some by simp
  from ARC_one_per_key_touch[OF inv1 one1 this]
  show ?thesis using ok Some unfolding ARCCache_Set_def Let_def ex_def by auto
next
  case None
  with noghost have req: "ARCCache_request c key = c"
    by (simp add: ARCCache_request_def listContainsKey_def)
  have "ARCCache_Set c key v ttl now =
          (case (if list_Len (arc_t1 c) + list_Len (arc_t2 c) \<ge> arc_capacity c
                 then ARCCache_replace c key else Inr c) of
             Inl e \<Rightarrow> Inl e
           | Inr c2 \<Rightarrow> Inr (ARCCache_pushT1 c2 key
                \<lparr>arcItem_key = key, arcItem_value = v,
                 arcItem_expiration = (if ttl > 0 then now + ttl else 0)\<rparr>))"
    using None unfolding ARCCache_Set_def Let_def req by simp
  with ok obtain c2 where
    c2: "(if list_Len (arc_t1 c) + list_Len (arc_t2 c) \<ge> arc_capacity c
          then ARCCache_replace c key else Inr c) = Inr c2"
    and c': "c' = ARCCache_pushT1 c2 key
               \<lparr>arcItem_key = key, arcItem_value = v,
                arcItem_expiration = (if ttl > 0 then now + ttl else 0)\<rparr>"
    by (cases "if list_Len (arc_t1 c) + list_Len (arc_t2 c) \<ge> arc_capacity c
               then ARCCache_replace c key else Inr c") auto
  have "ARC_inv c2 \<and> ARC_one_per_key c2 \<and> arc_cache c2 key = None"
  proof (cases "list_Len (arc_t1 c) + list_Len (arc_t2 c) \<ge> arc_capacity c")
    case True
    with c2 have r: "ARCCache_replace c key = Inr c2" by simp
    from ARC_inv_replace[OF inv r] ARC_one_per_key_replace(1)[OF inv one r]
      ARC_one_per_key_replace(2)[OF inv one r None]
    show ?thesis by simp
  next
    case False
    with c2 inv one None show ?thesis by simp
  qed
  then show ?thesis unfolding c' by (auto intro!: ARC_one_per_key_pushT1)
qed

lemma ARC_one_per_key_call:
  assumes inv: "ARC_inv c" and one: "ARC_one_per_key c" and ok: "ARCCache_call c x = Inr c'"
    and noghost: "\<And>k v ttl now r. x = Set k v ttl now r \<Longrightarrow>
           arc_cache c k \<noteq> None \<or> (k \<notin> set (arc_b1 c) \<and> k \<notin> set (arc_b2 c))"
  shows "ARC_one_per_key c'"
proof (cases x)
  case (Set k v ttl now r)
  with ok have "ARCCache_Set c k v ttl now = Inr c'" by simp
  from ARC_one_per_key_Set[OF inv one this noghost[OF Set]] show ?thesis .
next
  case (Get k now)
  with ok ARC_one_per_key_Get[OF inv one, of k now] show ?thesis by auto
next
  case (Delete k)
  with ok ARC_one_per_key_remove[OF inv one, of k] show ?thesis
    by (auto simp: ARCCache_Delete_def)
next
  case Flush
  with ok show ?thesis by (auto simp: ARC_one_per_key_def ARCCache_Flush_def)
qed

lemma ARC_one_per_key_New: "ARC_one_per_key (NewARCCache n)"
  by (simp add: ARC_one_per_key_def NewARCCache_def)

subsection \<open>Expired entries\<close>

lemma LRU_expired_Get:
  assumes inv: "LRU_inv lru" and hit: "lru_cache lru k = Some e"
    and ex: "entry_expiration (lru_elems lru e) \<noteq> 0" "entry_expiration (lru_elems lru e) < now"
  shows "\<exists>lru'. LRUCache_Get lru k now = (None, False, lru') \<and>
           lru_cache lru' k = None \<and> e \<notin> set (lru_list lru') \<and>
           k \<notin> entry_key ` set (lru_entries lru') \<and>
           length (lru_list lru') + 1 = length (lru_list lru)"
proof -
  have d: "distinct (lru_list lru)"
    and A: "\<And>x. x \<in> set (lru_list lru) \<Longrightarrow> lru_cache lru (entry_key (lru_elems lru x)) = Some x"
    and B: "\<And>k x. lru_cache lru k = Some x \<Longrightarrow> x \<in> set (lru_list lru) \<and> entry_key (lru_elems lru x) = k"
    using inv unfolding LRU_inv_def by blast+
  from B[OF hit] have e: "e \<in> set (lru_list lru)" and k: "entry_key (lru_elems lru e) = k"
    by simp_all
  let ?s = "LRUCache_removeElement lru e"
  have sel: "lru_list ?s = remove1 e (lru_list lru)" "lru_cache ?s = (lru_cache lru)(k := None)"
    "lru_elems ?s = lru_elems lru"
    by (simp_all add: LRUCache_removeElement_def list_Remove_def k)
  have get: "LRUCache_Get lru k now = (None, False, ?s)"
    using hit ex by (simp add: LRUCache_Get_def Let_def)
  have "k \<notin> entry_key ` set (lru_entries ?s)"
  proof
    assume "k \<in> entry_key ` set (lru_entries ?s)"
    then obtain x where x: "x \<in> set (remove1 e (lru_list lru))" "entry_key (lru_elems lru x) = k"
      unfolding lru_entries_def sel by auto
    from x(1) d have "x \<in> set (lru_list lru)" "x \<noteq> e" by auto
    with A[of x] x(2) hit show False by simp
  qed
  moreover have "length (remove1 e (lru_list lru)) + 1 = length (lru_list lru)"
  proof -
    from e have "length (lru_list lru) > 0" by (cases "lru_list lru") auto
    with e show ?thesis by (simp add: length_remove1)
  qed
  ultimately show ?thesis
    using get d e by (auto simp: sel)
qed

lemma ARC_expired_Get:
  assumes inv: "ARC_inv arc" and hit: "arc_cache arc key = Some elt"
    and ex: "0 < arcItem_expiration (arc_elems arc elt)" "arcItem_expiration (arc_elems arc elt) < now"
  shows "\<exists>arc'. ARCCache_Get arc key now = (None, False, arc') \<and> ARC_inv arc' \<and>
           arc_cache arc' key = None \<and> elt \<notin> set (arc_t1 arc') \<union> set (arc_t2 arc') \<and>
           (elt \<in> set (arc_t1 arc) \<longrightarrow>
              arc_b1 arc' = ghost_push (arc_capacity arc) key (arc_b1 arc) \<and>
              arc_b2 arc' = arc_b2 arc) \<and>
           (elt \<in> set (arc_t2 arc) \<longrightarrow>
              arc_b2 arc' = ghost_push (arc_capacity arc) key (arc_b2 arc) \<and>
              arc_b1 arc' = arc_b1 arc)"
proof -
  note D = ARC_inv_D[OF inv]
  have d1: "distinct (arc_t1 arc)" and d2: "distinct (arc_t2 arc)"
    and disj: "set (arc_t1 arc) \<inter> set (arc_t2 arc) = {}" using D(1) by simp_all
  let ?c' = "ARCCache_remove arc key"
  have get: "ARCCache_Get arc key now = (None, False, ?c')"
    using hit ex by (simp add: ARCCache_Get_def Let_def)
  have t1: "arc_t1 ?c' = (if elt \<in> set (arc_t1 arc) then remove1 elt (arc_t1 arc) else arc_t1 arc)"
    and t2: "arc_t2 ?c' = (if elt \<notin> set (arc_t1 arc) \<and> elt \<in> set (arc_t2 arc)
                            then remove1 elt (arc_t2 arc) else arc_t2 arc)"
    and b1: "arc_b1 ?c' = (if elt \<in> set (arc_t1 arc)
                            then ghost_push (arc_capacity arc) key (arc_b1 arc) else arc_b1 arc)"
    and b2: "arc_b2 ?c' = (if elt \<notin> set (arc_t1 arc) \<and> elt \<in> set (arc_t2 arc)
                            then ghost_push (arc_capacity arc) key (arc_b2 arc) else arc_b2 arc)"
    and ca: "arc_cache ?c' = (arc_cache arc)(key := None)"
    using hit by (simp_all add: ARCCache_remove_def Let_def listContains_def list_Remove_def)
  have "elt \<notin> set (arc_t1 ?c') \<union> set (arc_t2 ?c')"
    unfolding t1 t2 using d1 d2 disj by auto
  moreover have "elt \<in> set (arc_t2 arc) \<Longrightarrow> elt \<notin> set (arc_t1 arc)" using disj by auto
  ultimately show ?thesis
    using get ARC_inv_remove[OF inv, of key] by (auto simp: b1 b2 ca)
qed

lemma ghost_push_mem: "1 \<le> capacity \<Longrightarrow> key \<in> set (ghost_push capacity key b)"
proof (cases b)
  case Nil
  assume "1 \<le> capacity"
  with Nil show ?thesis by (simp add: ghost_push_def list_Len_def)
next
  case (Cons x xs)
  then show ?thesis by (simp add: ghost_push_def list_Len_def Let_def)
qed

lemma ARC_expired_Get_resident:
  assumes inv: "ARC_inv arc" and hit: "arc_cache arc key = Some elt"
    and ex: "0 < arcItem_expiration (arc_elems arc elt)" "arcItem_expiration (arc_elems arc elt) < now"
    and single: "\<forall>e \<in> set (arc_t1 arc) \<union> set (arc_t2 arc).
                   arcItem_key (arc_elems arc e) = key \<longrightarrow> e = elt"
  shows "key \<notin> set (ARCCache_keys (ARCCache_remove arc key) (arc_t1 (ARCCache_remove arc key))) \<and>
         key \<notin> set (ARCCache_keys (ARCCache_remove arc key) (arc_t2 (ARCCache_remove arc key)))"
proof -
  note D = ARC_inv_D[OF inv]
  have d1: "distinct (arc_t1 arc)" and d2: "distinct (arc_t2 arc)"
    and disj: "set (arc_t1 arc) \<inter> set (arc_t2 arc) = {}" using D(1) by simp_all
  let ?c' = "ARCCache_remove arc key"
  have t1: "arc_t1 ?c' = (if elt \<in> set (arc_t1 arc) then remove1 elt (arc_t1 arc) else arc_t1 arc)"
    and t2: "arc_t2 ?c' = (if elt \<notin> set (arc_t1 arc) \<and> elt \<in> set (arc_t2 arc)
                            then remove1 elt (arc_t2 arc) else arc_t2 arc)"
    and el: "arc_elems ?c' = arc_elems arc"
    using hit by (simp_all add: ARCCache_remove_def Let_def listContains_def list_Remove_def)
  have gone: "elt \<notin> set (arc_t1 ?c') \<union> set (arc_t2 ?c')"
    unfolding t1 t2 using d1 d2 disj by auto
  have sub: "set (arc_t1 ?c') \<subseteq> set (arc_t1 arc)" "set (arc_t2 ?c') \<subseteq> set (arc_t2 arc)"
    unfolding t1 t2 using d1 d2 by auto
  have "arcItem_key (arc_elems arc e) \<noteq> key" if "e \<in> set (arc_t1 ?c') \<union> set (arc_t2 ?c')" for e
  proof
    assume k: "arcItem_key (arc_elems arc e) = key"
    from that sub have "e \<in> set (arc_t1 arc) \<union> set (arc_t2 arc)" by auto
    with single k have "e = elt" by blast
    with that gone show False by simp
  qed
  then show ?thesis unfolding ARCCache_keys_def el by auto
qed

text \<open>
  C5, as the code has it. When \<^verbatim>\<open>Get\<close> finds an entry whose expiration has passed it
  returns (nil, false). LRUCache unlinks the element from the list and deletes the key from
  the map, and no listed entry has the key afterwards; LFUCache deletes the key from
  \<^verbatim>\<open>items\<close> and from its frequency bucket; ARCCache deletes the key from the lookup
  map, unlinks the element from T1 or T2 and pushes the key on B1 or B2 (where it stays
  when the capacity is at least 1), and when the observed element is the only resident
  element with that key, no element of T1 or T2 has the key afterwards. MemoryCache holds
  only the read lock in \<^verbatim>\<open>Get\<close> and removes nothing: its state is the same afterwards.
\<close>

theorem C5_expired_entry_on_Get:
  "(mem_items m key = Some it \<and> 0 < item_expiration it \<and> item_expiration it < now \<longrightarrow>
      MemoryCache_Get m key now = (None, False, m)) \<and>
   (LRU_inv lru \<and> lru_cache lru k = Some e \<and>
    entry_expiration (lru_elems lru e) \<noteq> 0 \<and> entry_expiration (lru_elems lru e) < now \<longrightarrow>
      (\<exists>lru'. LRUCache_Get lru k now = (None, False, lru') \<and>
         lru_cache lru' k = None \<and> e \<notin> set (lru_list lru') \<and>
         k \<notin> entry_key ` set (lru_entries lru') \<and>
         length (lru_list lru') + 1 = length (lru_list lru))) \<and>
   (LFU_inv lfu \<and> map_of (lfu_items lfu) key = Some item \<and>
    0 < lfuItem_expiration item \<and> lfuItem_expiration item < now \<longrightarrow>
      (\<exists>lfu'. LFUCache_Get lfu key now = Inr (None, False, lfu') \<and> LFU_inv lfu' \<and>
         map_of (lfu_items lfu') key = None \<and>
         (\<forall>f node. lfu_freqs lfu' f = Some node \<longrightarrow> key \<notin> set (freqNode_items node)))) \<and>
   (ARC_inv arc \<and> arc_cache arc key = Some elt \<and>
    0 < arcItem_expiration (arc_elems arc elt) \<and> arcItem_expiration (arc_elems arc elt) < now \<longrightarrow>
      (\<exists>arc'. ARCCache_Get arc key now = (None, False, arc') \<and> ARC_inv arc' \<and>
         arc_cache arc' key = None \<and> elt \<notin> set (arc_t1 arc') \<union> set (arc_t2 arc') \<and>
         (elt \<in> set (arc_t1 arc) \<longrightarrow>
            arc_b1 arc' = ghost_push (arc_capacity arc) key (arc_b1 arc) \<and>
            arc_b2 arc' = arc_b2 arc \<and>
            (1 \<le> arc_capacity arc \<longrightarrow> key \<in> set (arc_b1 arc'))) \<and>
         (elt \<in> set (arc_t2 arc) \<longrightarrow>
            arc_b2 arc' = ghost_push (arc_capacity arc) key (arc_b2 arc) \<and>
            arc_b1 arc' = arc_b1 arc \<and>
            (1 \<le> arc_capacity arc \<longrightarrow> key \<in> set (arc_b2 arc'))) \<and>
         ((\<forall>e \<in> set (arc_t1 arc) \<union> set (arc_t2 arc).
             arcItem_key (arc_elems arc e) = key \<longrightarrow> e = elt) \<longrightarrow>
            key \<notin> set (ARCCache_keys arc' (arc_t1 arc')) \<and>
            key \<notin> set (ARCCache_keys arc' (arc_t2 arc')))))"
proof (intro conjI impI)
  assume "mem_items m key = Some it \<and> 0 < item_expiration it \<and> item_expiration it < now"
  then show "MemoryCache_Get m key now = (None, False, m)"
    by (simp add: MemoryCache_Get_def)
next
  assume "LRU_inv lru \<and> lru_cache lru k = Some e \<and>
    entry_expiration (lru_elems lru e) \<noteq> 0 \<and> entry_expiration (lru_elems lru e) < now"
  then show "\<exists>lru'. LRUCache_Get lru k now = (None, False, lru') \<and>
         lru_cache lru' k = None \<and> e \<notin> set (lru_list lru') \<and>
         k \<notin> entry_key ` set (lru_entries lru') \<and>
         length (lru_list lru') + 1 = length (lru_list lru)"
    using LRU_expired_Get by blast
next
  assume a: "LFU_inv lfu \<and> map_of (lfu_items lfu) key = Some item \<and>
    0 < lfuItem_expiration item \<and> lfuItem_expiration item < now"
  then have "LFUCache_Get lfu key now =
      (case LFUCache_remove lfu item of Inl e \<Rightarrow> Inl e | Inr c1 \<Rightarrow> Inr (None, False, c1))"
    by (simp add: LFUCache_Get_def)
  with LFU_inv_remove[of lfu key item] a
  show "\<exists>lfu'. LFUCache_Get lfu key now = Inr (None, False, lfu') \<and> LFU_inv lfu' \<and>
         map_of (lfu_items lfu') key = None \<and>
         (\<forall>f node. lfu_freqs lfu' f = Some node \<longrightarrow> key \<notin> set (freqNode_items node))"
    by auto
next
  assume a: "ARC_inv arc \<and> arc_cache arc key = Some elt \<and>
    0 < arcItem_expiration (arc_elems arc elt) \<and> arcItem_expiration (arc_elems arc elt) < now"
  then have inv: "ARC_inv arc" and hit: "arc_cache arc key = Some elt"
    and ex: "0 < arcItem_expiration (arc_elems arc elt)"
      "arcItem_expiration (arc_elems arc elt) < now" by simp_all
  let ?c' = "ARCCache_remove arc key"
  have get: "ARCCache_Get arc key now = (None, False, ?c')"
    using hit ex by (simp add: ARCCache_Get_def Let_def)
  from ARC_expired_Get[OF inv hit ex] get
  have base: "ARC_inv ?c' \<and>
         arc_cache ?c' key = None \<and> elt \<notin> set (arc_t1 ?c') \<union> set (arc_t2 ?c') \<and>
         (elt \<in> set (arc_t1 arc) \<longrightarrow>
            arc_b1 ?c' = ghost_push (arc_capacity arc) key (arc_b1 arc) \<and>
            arc_b2 ?c' = arc_b2 arc) \<and>
         (elt \<in> set (arc_t2 arc) \<longrightarrow>
            arc_b2 ?c' = ghost_push (arc_capacity arc) key (arc_b2 arc) \<and>
            arc_b1 ?c' = arc_b1 arc)"
    by simp
  have ghost1: "1 \<le> arc_capacity arc \<longrightarrow> key \<in> set (arc_b1 ?c')" if "elt \<in> set (arc_t1 arc)"
    using base that ghost_push_mem[of "arc_capacity arc" key "arc_b1 arc"] by simp
  have ghost2: "1 \<le> arc_capacity arc \<longrightarrow> key \<in> set (arc_b2 ?c')" if "elt \<in> set (arc_t2 arc)"
    using base that ghost_push_mem[of "arc_capacity arc" key "arc_b2 arc"] by simp
  have resident: "key \<notin> set (ARCCache_keys ?c' (arc_t1 ?c')) \<and>
                  key \<notin> set (ARCCache_keys ?c' (arc_t2 ?c'))"
    if "\<forall>e \<in> set (arc_t1 arc) \<union> set (arc_t2 arc).
             arcItem_key (arc_elems arc e) = key \<longrightarrow> e = elt"
    using ARC_expired_Get_resident[OF inv hit ex that] .
  show "\<exists>arc'. ARCCache_Get arc key now = (None, False, arc') \<and> ARC_inv arc' \<and>
         arc_cache arc' key = None \<and> elt \<notin> set (arc_t1 arc') \<union> set (arc_t2 arc') \<and>
         (elt \<in> set (arc_t1 arc) \<longrightarrow>
            arc_b1 arc' = ghost_push (arc_capacity arc) key (arc_b1 arc) \<and>
            arc_b2 arc' = arc_b2 arc \<and>
            (1 \<le> arc_capacity arc \<longrightarrow> key \<in> set (arc_b1 arc'))) \<and>
         (elt \<in> set (arc_t2 arc) \<longrightarrow>
            arc_b2 arc' = ghost_push (arc_capacity arc) key (arc_b2 arc) \<and>
            arc_b1 arc' = arc_b1 arc \<and>
            (1 \<le> arc_capacity arc \<longrightarrow> key \<in> set (arc_b2 arc'))) \<and>
         ((\<forall>e \<in> set (arc_t1 arc) \<union> set (arc_t2 arc).
             arcItem_key (arc_elems arc e) = key \<longrightarrow> e = elt) \<longrightarrow>
            key \<notin> set (ARCCache_keys arc' (arc_t1 arc')) \<and>
            key \<notin> set (ARCCache_keys arc' (arc_t2 arc')))"
  proof (intro exI[of _ ?c'] conjI impI)
    show "ARCCache_Get arc key now = (None, False, ?c')" by (rule get)
    show "ARC_inv ?c'" "arc_cache ?c' key = None"
      "elt \<notin> set (arc_t1 ?c') \<union> set (arc_t2 ?c')" using base by simp_all
  next
    assume t1: "elt \<in> set (arc_t1 arc)"
    with base show "arc_b1 ?c' = ghost_push (arc_capacity arc) key (arc_b1 arc)"
      "arc_b2 ?c' = arc_b2 arc" by simp_all
    assume "1 \<le> arc_capacity arc"
    with ghost1[OF t1] show "key \<in> set (arc_b1 ?c')" by simp
  next
    assume t2: "elt \<in> set (arc_t2 arc)"
    with base show "arc_b2 ?c' = ghost_push (arc_capacity arc) key (arc_b2 arc)"
      "arc_b1 ?c' = arc_b1 arc" by simp_all
    assume "1 \<le> arc_capacity arc"
    with ghost2[OF t2] show "key \<in> set (arc_b2 ?c')" by simp
  next
    assume s: "\<forall>e \<in> set (arc_t1 arc) \<union> set (arc_t2 arc).
             arcItem_key (arc_elems arc e) = key \<longrightarrow> e = elt"
    from resident[OF s] show "key \<notin> set (ARCCache_keys ?c' (arc_t1 ?c'))"
      "key \<notin> set (ARCCache_keys ?c' (arc_t2 ?c'))" by simp_all
  qed
qed

theorem C5_expired_entry_on_Get_witness:
  "MemoryCache_Get (MemoryCache_Set NewMemoryCache ''a'' (Some (1::nat)) 5 0) ''a'' 10 =
     (None, False, MemoryCache_Set NewMemoryCache ''a'' (Some 1) 5 0) \<and>
   (\<exists>lru'. LRUCache_Get (LRUCache_Set (NewLRUCache 2) (Some ''a'') (Some (1::nat)) 5 0)
              (Some ''a'') 10 = (None, False, lru') \<and>
           lru_cache lru' (Some ''a'') = None \<and> lru_list lru' = []) \<and>
   (\<exists>lfu'. LFUCache_Get
              \<lparr>lfu_capacity = 2,
               lfu_items = [(''a'', \<lparr>lfuItem_key = ''a'', lfuItem_value = Some (1::nat),
                                     lfuItem_frequency = 1, lfuItem_expiration = 5,
                                     lfuItem_freqNode = Some 1\<rparr>)],
               lfu_freqs = [1 \<mapsto> \<lparr>freqNode_freq = 1, freqNode_items = [''a'']\<rparr>],
               lfu_minFreq = 1\<rparr> ''a'' 10 = Inr (None, False, lfu') \<and>
           map_of (lfu_items lfu') ''a'' = None) \<and>
   (\<exists>arc'. ARCCache_Get
              \<lparr>arc_capacity = 2, arc_p = 0, arc_t1 = [1, 0], arc_t2 = [], arc_b1 = [],
               arc_b2 = [], arc_cache = [''a'' \<mapsto> 0, ''b'' \<mapsto> 1],
               arc_elems = (\<lambda>_. zero_arcItem)
                 (0 := \<lparr>arcItem_key = ''a'', arcItem_value = Some (1::nat),
                        arcItem_expiration = 5\<rparr>,
                  1 := \<lparr>arcItem_key = ''b'', arcItem_value = Some 2,
                        arcItem_expiration = 0\<rparr>),
               arc_next = 2\<rparr> ''a'' 10 = (None, False, arc') \<and>
           arc_cache arc' ''a'' = None \<and> arc_b1 arc' = [''a''] \<and>
           ''a'' \<notin> set (ARCCache_keys arc' (arc_t1 arc')) \<and>
           ''a'' \<notin> set (ARCCache_keys arc' (arc_t2 arc')))"
proof -
  let ?M = "MemoryCache_Set NewMemoryCache ''a'' (Some (1::nat)) 5 0"
  let ?L = "LRUCache_Set (NewLRUCache 2) (Some ''a'') (Some (1::nat)) 5 0"
  let ?I = "\<lparr>lfuItem_key = ''a'', lfuItem_value = Some (1::nat), lfuItem_frequency = 1,
             lfuItem_expiration = 5, lfuItem_freqNode = Some 1\<rparr>"
  let ?F = "\<lparr>lfu_capacity = 2, lfu_items = [(''a'', ?I)],
             lfu_freqs = [1 \<mapsto> \<lparr>freqNode_freq = 1, freqNode_items = [''a'']\<rparr>],
             lfu_minFreq = 1\<rparr>"
  let ?A = "\<lparr>arc_capacity = 2, arc_p = 0, arc_t1 = [1, 0], arc_t2 = [], arc_b1 = [],
             arc_b2 = [], arc_cache = [''a'' \<mapsto> 0, ''b'' \<mapsto> 1],
             arc_elems = (\<lambda>_. zero_arcItem)
               (0 := \<lparr>arcItem_key = ''a'', arcItem_value = Some (1::nat),
                      arcItem_expiration = 5\<rparr>,
                1 := \<lparr>arcItem_key = ''b'', arcItem_value = Some 2,
                      arcItem_expiration = 0\<rparr>),
             arc_next = 2\<rparr>"
  have hm: "mem_items ?M ''a'' = Some \<lparr>item_value = Some 1, item_expiration = 5\<rparr>"
    by (simp add: MemoryCache_Set_def NewMemoryCache_def)
  have hl: "LRU_inv ?L" "lru_cache ?L (Some ''a'') = Some 0"
    "entry_expiration (lru_elems ?L 0) = 5" "lru_list ?L = [0]"
    by (simp_all add: LRU_inv_def LRUCache_Set_def NewLRUCache_def list_Len_def
        list_PushFront_def LRUCache_removeOldest_def list_Back_def)
  have hf: "LFU_inv ?F" "map_of (lfu_items ?F) ''a'' = Some ?I"
    by (simp_all add: LFU_inv_def)
  have ha: "ARC_inv ?A" "arc_cache ?A ''a'' = Some 0"
    "arcItem_expiration (arc_elems ?A 0) = 5"
    "\<forall>e \<in> set (arc_t1 ?A) \<union> set (arc_t2 ?A). arcItem_key (arc_elems ?A e) = ''a'' \<longrightarrow> e = 0"
    "0 \<in> set (arc_t1 ?A)" "arc_capacity ?A = 2" "arc_b1 ?A = []"
    by (simp_all add: ARC_inv_def)
  from C5_expired_entry_on_Get [where m = ?M and key = "''a''" and now = 10 and lru = ?L
      and k = "Some ''a''" and e = 0 and lfu = ?F and item = ?I and arc = ?A and elt = 0
      and it = "\<lparr>item_value = Some 1, item_expiration = 5\<rparr>"]
    hm hl hf ha
  show ?thesis
    by (auto simp: ghost_push_def list_Len_def)
qed

text \<open>
  C5 as stated wants the expired entry removed on every engine: after \<^verbatim>\<open>Get\<close> has
  reported the expired key \<open>a\<close> as missing, MemoryCache still holds its entry.
\<close>

theorem C5_memory_keeps_expired_entry:
  "(case MemoryCache_Get (MemoryCache_Set NewMemoryCache ''a'' (Some (1::nat)) 5 0) ''a'' 10 of
      (v, found, c) \<Rightarrow> v = None \<and> \<not> found \<and> mem_items c ''a'' \<noteq> None)"
  by (simp add: MemoryCache_Get_def MemoryCache_Set_def NewMemoryCache_def)

subsection \<open>The invariants from the constructors\<close>

lemma LRU_inv_reachable: "run LRUCache_call (NewLRUCache n) xs = Inr c \<Longrightarrow> LRU_inv c"
  using LRU_inv_run[OF LRU_inv_New] .

lemma LFU_inv_reachable: "run LFUCache_call (NewLFUCache n) xs = Inr c \<Longrightarrow> LFU_inv c"
  using LFU_inv_run[OF LFU_inv_New] .

lemma ARC_inv_reachable: "run ARCCache_call (NewARCCache n) xs = Inr c \<Longrightarrow> ARC_inv c"
  using ARC_inv_run[OF ARC_inv_New] .

subsection \<open>Capacity of LRUCache\<close>

text \<open>
  The part of C2 that the code keeps: an LRUCache of capacity \<open>n \<ge> 1\<close> never lists more
  than \<open>n\<close> elements, whatever the calls are, and no call of LRUCache panics.
\<close>

lemma length_MoveToFront: "length (list_MoveToFront e l) = length l"
proof (cases "e \<in> set l")
  case True
  then have "length l > 0" by (cases l) auto
  with True show ?thesis by (simp add: list_MoveToFront_def length_remove1)
next
  case False
  then show ?thesis by (simp add: list_MoveToFront_def)
qed

lemma length_list_Remove: "length (list_Remove e l) \<le> length l"
  by (simp add: list_Remove_def length_remove1)

lemma removeElement_bounds:
  "lru_capacity (LRUCache_removeElement lru e) = lru_capacity lru"
  "length (lru_list (LRUCache_removeElement lru e)) \<le> length (lru_list lru)"
  by (simp_all add: LRUCache_removeElement_def length_list_Remove)

lemma removeOldest_length:
  assumes "lru_list lru \<noteq> []"
  shows "length (lru_list (LRUCache_removeOldest lru)) + 1 = length (lru_list lru)"
proof -
  from assms have b: "list_Back (lru_list lru) = Some (last (lru_list lru))"
    by (cases "lru_list lru") (simp_all add: list_Back_def)
  from assms have "last (lru_list lru) \<in> set (lru_list lru)" "length (lru_list lru) > 0"
    by simp_all
  then show ?thesis
    by (simp add: LRUCache_removeOldest_def b LRUCache_removeElement_def list_Remove_def
        length_remove1)
qed

lemma LRU_capacity_Set:
  assumes cap: "1 \<le> lru_capacity lru" and le: "list_Len (lru_list lru) \<le> lru_capacity lru"
  shows "lru_capacity (LRUCache_Set lru k v ttl now) = lru_capacity lru \<and>
         list_Len (lru_list (LRUCache_Set lru k v ttl now)) \<le> lru_capacity lru"
proof (cases "lru_cache lru k")
  case (Some e)
  with le show ?thesis
    by (simp add: LRUCache_Set_def Let_def list_Len_def length_MoveToFront)
next
  case None
  show ?thesis
  proof (cases "list_Len (lru_list lru) \<ge> lru_capacity lru")
    case True
    with cap have "lru_list lru \<noteq> []" by (auto simp: list_Len_def)
    from removeOldest_length[OF this] le None True show ?thesis
      by (simp add: LRUCache_Set_def Let_def list_Len_def list_PushFront_def
          LRUCache_removeOldest_def LRUCache_removeElement_def split: option.splits)
  next
    case False
    with None show ?thesis
      by (simp add: LRUCache_Set_def Let_def list_Len_def list_PushFront_def)
  qed
qed

lemma LRU_capacity_call:
  assumes cap: "1 \<le> lru_capacity c" and le: "list_Len (lru_list c) \<le> lru_capacity c"
    and step: "LRUCache_call c x = Inr c'"
  shows "lru_capacity c' = lru_capacity c \<and> list_Len (lru_list c') \<le> lru_capacity c"
proof (cases x)
  case (Set k v ttl now r)
  with step LRU_capacity_Set[OF cap le] show ?thesis by auto
next
  case (Get k now)
  have "lru_capacity (snd (snd (LRUCache_Get c k now))) = lru_capacity c \<and>
        length (lru_list (snd (snd (LRUCache_Get c k now)))) \<le> length (lru_list c)"
    by (simp add: LRUCache_Get_def Let_def removeElement_bounds length_MoveToFront
        split: option.splits)
  with step Get le show ?thesis by (auto simp: list_Len_def)
next
  case (Delete k)
  have "lru_capacity (LRUCache_Delete c k) = lru_capacity c \<and>
        length (lru_list (LRUCache_Delete c k)) \<le> length (lru_list c)"
    by (simp add: LRUCache_Delete_def removeElement_bounds split: option.splits)
  with step Delete le show ?thesis by (auto simp: list_Len_def)
next
  case Flush
  with step cap show ?thesis by (auto simp: LRUCache_Clear_def list_Len_def)
qed

lemma LRU_capacity_run:
  assumes "1 \<le> lru_capacity c" and "list_Len (lru_list c) \<le> lru_capacity c"
    and "run LRUCache_call c xs = Inr c'"
  shows "list_Len (lru_list c') \<le> lru_capacity c"
  using assms
proof (induction xs arbitrary: c)
  case Nil
  then show ?case by simp
next
  case (Cons x xs)
  from Cons.prems(3) obtain c1 where s: "LRUCache_call c x = Inr c1"
    and r: "run LRUCache_call c1 xs = Inr c'" by (auto split: sum.splits)
  from LRU_capacity_call[OF Cons.prems(1,2) s]
  have c1: "lru_capacity c1 = lru_capacity c" "list_Len (lru_list c1) \<le> lru_capacity c1"
    by simp_all
  from Cons.IH[OF _ c1(2) r] Cons.prems(1) c1(1) show ?case by simp
qed

lemma LRU_capacity_reachable:
  assumes "1 \<le> n" and "run LRUCache_call (NewLRUCache n) xs = Inr c"
  shows "list_Len (lru_list c) \<le> n"
  using LRU_capacity_run[of "NewLRUCache n" xs c] assms
  by (simp add: NewLRUCache_def list_Len_def)

lemma LRU_run_total: "\<exists>c'. run LRUCache_call c xs = Inr c'"
proof (induction xs arbitrary: c)
  case Nil
  show ?case by simp
next
  case (Cons x xs)
  obtain c1 where "LRUCache_call c x = Inr c1" by (cases x) auto
  with Cons.IH[of c1] show ?case by auto
qed

subsection \<open>Capacity of LFUCache\<close>

text \<open>
  The other part of C2 that the code keeps: in every run of calls on an LFUCache of capacity
  \<open>n \<ge> 1\<close> that does not panic, \<^verbatim>\<open>items\<close> never holds more than \<open>n\<close> keys. The
  stale \<^verbatim>\<open>minFreq\<close> of C6 does not break the bound, since the bucket at \<^verbatim>\<open>minFreq\<close>
  is never empty while the cache is full.
\<close>

lemma leaveNode_other:
  assumes "\<And>node. lfu_freqs c f = Some node \<Longrightarrow> freqNode_freq node = f" and "f' \<noteq> f"
  shows "lfu_freqs (LFUCache_leaveNode c f key) f' = lfu_freqs c f'"
proof (cases "lfu_freqs c f")
  case None
  then show ?thesis by (simp add: LFUCache_leaveNode_def)
next
  case (Some node)
  with assms(1) have "freqNode_freq node = f" by simp
  with Some assms(2) show ?thesis
    by (simp add: LFUCache_leaveNode_def LFUCache_removeFreqNode_def Let_def)
qed

lemma alist_delete_absent: "k \<notin> fst ` set al \<Longrightarrow> AList.delete k al = al"
  by (induction al) (auto simp: AList.delete_eq)

lemma length_alist_delete:
  "distinct (map fst al) \<Longrightarrow> map_of al k = Some v \<Longrightarrow> length (AList.delete k al) + 1 = length al"
proof (induction al)
  case Nil
  then show ?case by simp
next
  case (Cons p al)
  obtain k' v' where p: "p = (k', v')" by (cases p)
  show ?case
  proof (cases "k' = k")
    case True
    with Cons.prems(1) p have "k \<notin> fst ` set al" by auto
    from alist_delete_absent[OF this] True p show ?thesis
      by (simp add: AList.delete_eq)
  next
    case False
    with Cons p show ?thesis by (auto simp: AList.delete_eq)
  qed
qed

lemma length_alist_update:
  "length (AList.update k v al) = (if map_of al k = None then length al + 1 else length al)"
  by (induction al) auto

lemma incrementFreq_result:
  assumes ok: "LFUCache_incrementFreq c item = Inr c'"
  shows "lfu_items c' = AList.update (lfuItem_key item)
           (item\<lparr>lfuItem_frequency := lfuItem_frequency item + 1,
                 lfuItem_freqNode := Some (lfuItem_frequency item + 1)\<rparr>) (lfu_items c)"
    and "lfu_capacity c' = lfu_capacity c"
  using ok unfolding LFUCache_incrementFreq_def Let_def
  by (auto simp: leaveNode_items leaveNode_fields split: if_splits option.splits)

lemma incrementFreq_minFreq_bucket:
  assumes ok: "LFUCache_incrementFreq c item = Inr c'"
    and sync: "lfuItem_freqNode item = None \<or> lfuItem_freqNode item = Some (lfuItem_frequency item)"
    and freq: "\<And>f node. lfu_freqs c f = Some node \<Longrightarrow> freqNode_freq node = f"
    and pre: "(\<exists>node. lfu_freqs c (lfu_minFreq c) = Some node \<and> freqNode_items node \<noteq> []) \<or>
              lfuItem_frequency item = 0 \<or> lfuItem_frequency item = lfu_minFreq c"
  shows "\<exists>node. lfu_freqs c' (lfu_minFreq c') = Some node \<and> freqNode_items node \<noteq> []"
proof -
  define c1 where "c1 = (case lfuItem_freqNode item of
                  None \<Rightarrow> c
                | Some f \<Rightarrow> LFUCache_leaveNode c f (lfuItem_key item))"
  define nf where "nf = lfuItem_frequency item + 1"
  define node1 where "node1 = (case lfu_freqs c1 nf of
                     Some node \<Rightarrow>
                       node\<lparr>freqNode_items := List.insert (lfuItem_key item) (freqNode_items node)\<rparr>
                   | None \<Rightarrow> \<lparr>freqNode_freq = nf, freqNode_items = [lfuItem_key item]\<rparr>)"
  define item1 where "item1 = item\<lparr>lfuItem_frequency := nf, lfuItem_freqNode := Some nf\<rparr>"
  define c2 where "c2 = c1\<lparr>lfu_freqs := (lfu_freqs c1)(nf \<mapsto> node1),
                  lfu_items := AList.update (lfuItem_key item) item1 (lfu_items c1)\<rparr>"
  have unfolded: "LFUCache_incrementFreq c item =
            (if nf = 1 then Inr (c2\<lparr>lfu_minFreq := 1\<rparr>)
             else if nf - 1 = lfu_minFreq c2 then
               (case lfu_freqs c2 (lfu_minFreq c2) of
                  None \<Rightarrow> Inl NilPointerDereference
                | Some node \<Rightarrow>
                    if length (freqNode_items node) = 0
                    then Inr (c2\<lparr>lfu_minFreq := lfu_minFreq c2 + 1\<rparr>) else Inr c2)
             else Inr c2)"
    unfolding LFUCache_incrementFreq_def Let_def c1_def nf_def node1_def item1_def c2_def
    by simp
  have node1_ne: "freqNode_items node1 \<noteq> []"
    unfolding node1_def by (auto simp: List.insert_def split: option.splits)
  have at_nf: "lfu_freqs c2 nf = Some node1" unfolding c2_def by simp
  have min2: "lfu_minFreq c2 = lfu_minFreq c"
    unfolding c2_def c1_def by (simp add: leaveNode_fields split: option.splits)
  show ?thesis
  proof (cases "nf = 1")
    case True
    with ok unfolded have "c' = c2\<lparr>lfu_minFreq := 1\<rparr>" by simp
    with at_nf True node1_ne show ?thesis by simp
  next
    case nf1: False
    show ?thesis
    proof (cases "nf - 1 = lfu_minFreq c2")
      case True
      with ok unfolded nf1 obtain node where node: "lfu_freqs c2 (lfu_minFreq c2) = Some node"
        and c': "c' = (if length (freqNode_items node) = 0
                       then c2\<lparr>lfu_minFreq := lfu_minFreq c2 + 1\<rparr> else c2)"
        by (auto split: option.splits if_splits)
      show ?thesis
      proof (cases "length (freqNode_items node) = 0")
        case e: True
        with c' True have "c' = c2\<lparr>lfu_minFreq := nf\<rparr>" by simp
        with at_nf node1_ne show ?thesis by simp
      next
        case False
        with c' node show ?thesis by auto
      qed
    next
      case False
      with ok unfolded nf1 have c': "c' = c2" by simp
      from nf1 False have f: "lfuItem_frequency item \<noteq> 0" "lfuItem_frequency item \<noteq> lfu_minFreq c"
        unfolding nf_def min2 by auto
      with pre obtain node where node: "lfu_freqs c (lfu_minFreq c) = Some node"
        "freqNode_items node \<noteq> []" by blast
      show ?thesis
      proof (cases "lfu_minFreq c = nf")
        case True
        with at_nf node1_ne c' min2 show ?thesis by simp
      next
        case ne: False
        have "lfu_freqs c1 (lfu_minFreq c) = lfu_freqs c (lfu_minFreq c)"
          using sync f(2) leaveNode_other[of c "lfuItem_frequency item" "lfu_minFreq c" "lfuItem_key item"] freq
          unfolding c1_def by (auto split: option.splits)
        with ne have "lfu_freqs c2 (lfu_minFreq c) = Some node"
          unfolding c2_def using node(1) by simp
        with node(2) c' min2 show ?thesis by simp
      qed
    qed
  qed
qed

lemma leaveNode_freq:
  assumes "\<And>f node. lfu_freqs c f = Some node \<Longrightarrow> freqNode_freq node = f"
    and "lfu_freqs (LFUCache_leaveNode c f0 key) f = Some node"
  shows "freqNode_freq node = f"
proof (cases "lfu_freqs c f0")
  case None
  with assms show ?thesis by (simp add: LFUCache_leaveNode_def)
next
  case (Some n0)
  with assms(1) have "freqNode_freq n0 = f0" by simp
  with assms Some show ?thesis
    by (cases "f = f0")
      (auto simp: LFUCache_leaveNode_def LFUCache_removeFreqNode_def Let_def split: if_splits)
qed

lemma incrementFreq_freqs:
  assumes ok: "LFUCache_incrementFreq c item = Inr c'"
  shows "\<exists>c1 node1.
           c1 = (case lfuItem_freqNode item of None \<Rightarrow> c
                 | Some f \<Rightarrow> LFUCache_leaveNode c f (lfuItem_key item)) \<and>
           node1 = (case lfu_freqs c1 (lfuItem_frequency item + 1) of
                     Some node \<Rightarrow>
                       node\<lparr>freqNode_items := List.insert (lfuItem_key item) (freqNode_items node)\<rparr>
                   | None \<Rightarrow> \<lparr>freqNode_freq = lfuItem_frequency item + 1,
                              freqNode_items = [lfuItem_key item]\<rparr>) \<and>
           lfu_freqs c' = (lfu_freqs c1)(lfuItem_frequency item + 1 \<mapsto> node1)"
proof -
  define c1 where "c1 = (case lfuItem_freqNode item of
                  None \<Rightarrow> c
                | Some f \<Rightarrow> LFUCache_leaveNode c f (lfuItem_key item))"
  define nf where "nf = lfuItem_frequency item + 1"
  define node1 where "node1 = (case lfu_freqs c1 nf of
                     Some node \<Rightarrow>
                       node\<lparr>freqNode_items := List.insert (lfuItem_key item) (freqNode_items node)\<rparr>
                   | None \<Rightarrow> \<lparr>freqNode_freq = nf, freqNode_items = [lfuItem_key item]\<rparr>)"
  define item1 where "item1 = item\<lparr>lfuItem_frequency := nf, lfuItem_freqNode := Some nf\<rparr>"
  define c2 where "c2 = c1\<lparr>lfu_freqs := (lfu_freqs c1)(nf \<mapsto> node1),
                  lfu_items := AList.update (lfuItem_key item) item1 (lfu_items c1)\<rparr>"
  have unfolded: "LFUCache_incrementFreq c item =
            (if nf = 1 then Inr (c2\<lparr>lfu_minFreq := 1\<rparr>)
             else if nf - 1 = lfu_minFreq c2 then
               (case lfu_freqs c2 (lfu_minFreq c2) of
                  None \<Rightarrow> Inl NilPointerDereference
                | Some node \<Rightarrow>
                    if length (freqNode_items node) = 0
                    then Inr (c2\<lparr>lfu_minFreq := lfu_minFreq c2 + 1\<rparr>) else Inr c2)
             else Inr c2)"
    unfolding LFUCache_incrementFreq_def Let_def c1_def nf_def node1_def item1_def c2_def
    by simp
  from ok have "c' = c2\<lparr>lfu_minFreq := 1\<rparr> \<or> c' = c2\<lparr>lfu_minFreq := lfu_minFreq c2 + 1\<rparr> \<or>
                c' = c2"
    unfolding unfolded by (auto split: if_splits option.splits)
  then have "lfu_freqs c' = lfu_freqs c2" by auto
  then have "lfu_freqs c' = (lfu_freqs c1)(nf \<mapsto> node1)" by (simp add: c2_def)
  then show ?thesis unfolding c1_def node1_def nf_def by blast
qed

lemma incrementFreq_freq:
  assumes freq: "\<And>f node. lfu_freqs c f = Some node \<Longrightarrow> freqNode_freq node = f"
    and ok: "LFUCache_incrementFreq c item = Inr c'"
    and n: "lfu_freqs c' f = Some node"
  shows "freqNode_freq node = f"
proof -
  let ?nf = "lfuItem_frequency item + 1"
  from incrementFreq_freqs[OF ok] obtain c1 node1 where
    c1: "c1 = (case lfuItem_freqNode item of None \<Rightarrow> c
                 | Some f \<Rightarrow> LFUCache_leaveNode c f (lfuItem_key item))"
    and node1: "node1 = (case lfu_freqs c1 ?nf of
                     Some node \<Rightarrow>
                       node\<lparr>freqNode_items := List.insert (lfuItem_key item) (freqNode_items node)\<rparr>
                   | None \<Rightarrow> \<lparr>freqNode_freq = ?nf, freqNode_items = [lfuItem_key item]\<rparr>)"
    and fr: "lfu_freqs c' = (lfu_freqs c1)(?nf \<mapsto> node1)" by blast
  have freq1: "freqNode_freq nd = g" if "lfu_freqs c1 g = Some nd" for g nd
  proof (cases "lfuItem_freqNode item")
    case None
    with that c1 have "lfu_freqs c g = Some nd" by simp
    then show ?thesis by (rule freq)
  next
    case (Some f0)
    with that c1 have "lfu_freqs (LFUCache_leaveNode c f0 (lfuItem_key item)) g = Some nd" by simp
    with freq show ?thesis by (rule leaveNode_freq)
  qed
  show ?thesis
  proof (cases "f = ?nf")
    case True
    with n fr have "node = node1" by simp
    moreover have "freqNode_freq node1 = ?nf"
    proof (cases "lfu_freqs c1 ?nf")
      case None
      then show ?thesis unfolding node1 by simp
    next
      case (Some nd)
      with freq1[OF Some] show ?thesis unfolding node1 by simp
    qed
    ultimately show ?thesis using True by simp
  next
    case False
    with n fr have "lfu_freqs c1 f = Some node" by simp
    then show ?thesis by (rule freq1)
  qed
qed

lemma LFU_cap_remove:
  assumes inv: "LFU_cap_inv c" and item: "map_of (lfu_items c) key = Some item"
    and ok: "LFUCache_remove c item = Inr c'"
  shows "LFU_cap_inv c'" and "length (lfu_items c') + 1 = length (lfu_items c)"
    and "lfu_capacity c' = lfu_capacity c"
    and "map_of (lfu_items c') = (map_of (lfu_items c))(key := None)"
proof -
  from inv have linv: "LFU_inv c" and dist: "distinct (map fst (lfu_items c))"
    and sync: "\<And>k item. map_of (lfu_items c) k = Some item \<Longrightarrow>
                 lfuItem_freqNode item = Some (lfuItem_frequency item)"
    and freq: "\<And>f node. lfu_freqs c f = Some node \<Longrightarrow> freqNode_freq node = f"
    and cap: "1 \<le> lfu_capacity c" "int (length (lfu_items c)) \<le> lfu_capacity c"
    unfolding LFU_cap_inv_def by blast+
  from LFU_inv_D(1)[OF linv item] have k: "lfuItem_key item = key" .
  from sync[OF item] obtain f where f: "lfuItem_freqNode item = Some f" by simp
  let ?c1 = "c\<lparr>lfu_items := AList.delete key (lfu_items c)\<rparr>"
  from ok have c': "c' = LFUCache_leaveNode ?c1 f key"
    by (simp add: LFUCache_remove_def Let_def k f)
  have items': "lfu_items c' = AList.delete key (lfu_items c)"
    unfolding c' by (simp add: leaveNode_items)
  show len: "length (lfu_items c') + 1 = length (lfu_items c)"
    unfolding items' using length_alist_delete[OF dist item] .
  show capeq: "lfu_capacity c' = lfu_capacity c"
    unfolding c' by (simp add: leaveNode_fields)
  show m': "map_of (lfu_items c') = (map_of (lfu_items c))(key := None)"
    unfolding items' by (simp add: delete_conv')
  from LFU_inv_remove[OF linv item] ok have linv': "LFU_inv c'" by auto
  have freq': "freqNode_freq node = f'" if "lfu_freqs c' f' = Some node" for f' node
    using that leaveNode_freq[of ?c1 f key f' node] freq unfolding c' by simp
  show "LFU_cap_inv c'"
    unfolding LFU_cap_inv_def
  proof (intro conjI allI impI)
    show "LFU_inv c'" by (rule linv')
    show "distinct (map fst (lfu_items c'))"
      unfolding items' using dist by (rule distinct_delete)
    show "1 \<le> lfu_capacity c'" using cap capeq by simp
    show "int (length (lfu_items c')) \<le> lfu_capacity c'" using cap len capeq by linarith
  next
    fix k it assume "map_of (lfu_items c') k = Some it"
    then have "map_of (lfu_items c) k = Some it" unfolding m' by (auto split: if_splits)
    then show "lfuItem_freqNode it = Some (lfuItem_frequency it)" by (rule sync)
  next
    fix f' node assume "lfu_freqs c' f' = Some node"
    then show "freqNode_freq node = f'" by (rule freq')
  next
    assume "lfu_capacity c' \<le> int (length (lfu_items c'))"
    with cap len capeq have False by linarith
    then show "\<exists>node. lfu_freqs c' (lfu_minFreq c') = Some node \<and> freqNode_items node \<noteq> []" ..
  qed
qed

lemma LFU_cap_incrementFreq:
  assumes item: "map_of (lfu_items c) key = Some item" "lfuItem_key item = key"
    and keys: "\<And>k it. map_of (lfu_items c) k = Some it \<Longrightarrow> lfuItem_key it = k"
    and nodes: "\<And>k it. map_of (lfu_items c) k = Some it \<Longrightarrow> k \<noteq> key \<Longrightarrow>
                  lfuItem_freqNode it = Some (lfuItem_frequency it)"
    and members: "\<And>f node k. lfu_freqs c f = Some node \<Longrightarrow> k \<in> set (freqNode_items node) \<Longrightarrow>
                  \<exists>it. map_of (lfu_items c) k = Some it \<and> lfuItem_freqNode it = Some f"
    and dist: "distinct (map fst (lfu_items c))"
    and sync: "lfuItem_freqNode item = None \<and> lfuItem_frequency item = 0 \<or>
               lfuItem_freqNode item = Some (lfuItem_frequency item)"
    and freq: "\<And>f node. lfu_freqs c f = Some node \<Longrightarrow> freqNode_freq node = f"
    and cap: "1 \<le> lfu_capacity c" "int (length (lfu_items c)) \<le> lfu_capacity c"
    and bucket: "lfuItem_frequency item \<noteq> 0 \<Longrightarrow> lfu_capacity c \<le> int (length (lfu_items c)) \<Longrightarrow>
                 \<exists>node. lfu_freqs c (lfu_minFreq c) = Some node \<and> freqNode_items node \<noteq> []"
    and ok: "LFUCache_incrementFreq c item = Inr c'"
  shows "LFU_cap_inv c'"
proof -
  let ?item1 = "item\<lparr>lfuItem_frequency := lfuItem_frequency item + 1,
                     lfuItem_freqNode := Some (lfuItem_frequency item + 1)\<rparr>"
  have linv': "LFU_inv c'"
  proof (rule LFU_inv_incrementFreq[OF item keys _ members ok])
    fix k it assume "map_of (lfu_items c) k = Some it" "k \<noteq> key"
    from nodes[OF this] show "\<exists>f. lfuItem_freqNode it = Some f" by simp
  qed
  from incrementFreq_result[OF ok] item(2)
  have items': "lfu_items c' = AList.update key ?item1 (lfu_items c)"
    and capeq: "lfu_capacity c' = lfu_capacity c" by simp_all
  have m': "map_of (lfu_items c') = (map_of (lfu_items c))(key \<mapsto> ?item1)"
    unfolding items' by (simp add: update_conv')
  have len: "length (lfu_items c') = length (lfu_items c)"
    unfolding items' using item(1) by (simp add: length_alist_update)
  show ?thesis
    unfolding LFU_cap_inv_def
  proof (intro conjI allI impI)
    show "LFU_inv c'" by (rule linv')
    show "distinct (map fst (lfu_items c'))"
      unfolding items' using dist by (rule distinct_update)
    show "1 \<le> lfu_capacity c'" using cap capeq by simp
    show "int (length (lfu_items c')) \<le> lfu_capacity c'" using cap len capeq by simp
  next
    fix k it assume a: "map_of (lfu_items c') k = Some it"
    show "lfuItem_freqNode it = Some (lfuItem_frequency it)"
    proof (cases "k = key")
      case True
      with a m' have "it = ?item1" by simp
      then show ?thesis by simp
    next
      case False
      with a m' have "map_of (lfu_items c) k = Some it" by simp
      from nodes[OF this False] show ?thesis .
    qed
  next
    fix f node assume "lfu_freqs c' f = Some node"
    with freq ok show "freqNode_freq node = f" by (rule incrementFreq_freq)
  next
    assume full: "lfu_capacity c' \<le> int (length (lfu_items c'))"
    have "(\<exists>node. lfu_freqs c (lfu_minFreq c) = Some node \<and> freqNode_items node \<noteq> []) \<or>
          lfuItem_frequency item = 0 \<or> lfuItem_frequency item = lfu_minFreq c"
      using bucket full len capeq by (cases "lfuItem_frequency item = 0") auto
    moreover have "lfuItem_freqNode item = None \<or>
                   lfuItem_freqNode item = Some (lfuItem_frequency item)"
      using sync by blast
    ultimately show "\<exists>node. lfu_freqs c' (lfu_minFreq c') = Some node \<and> freqNode_items node \<noteq> []"
      using incrementFreq_minFreq_bucket[OF ok _ freq] by blast
  qed
qed

lemma LFU_cap_inv_D:
  assumes "LFU_cap_inv c"
  shows "LFU_inv c" and "distinct (map fst (lfu_items c))"
    and "\<And>k item. map_of (lfu_items c) k = Some item \<Longrightarrow>
           lfuItem_freqNode item = Some (lfuItem_frequency item)"
    and "\<And>f node. lfu_freqs c f = Some node \<Longrightarrow> freqNode_freq node = f"
    and "1 \<le> lfu_capacity c" and "int (length (lfu_items c)) \<le> lfu_capacity c"
    and "lfu_capacity c \<le> int (length (lfu_items c)) \<Longrightarrow>
           \<exists>node. lfu_freqs c (lfu_minFreq c) = Some node \<and> freqNode_items node \<noteq> []"
  using assms unfolding LFU_cap_inv_def by blast+

lemma LFU_cap_hit:
  assumes inv: "LFU_cap_inv c" and item: "map_of (lfu_items c) key = Some item"
    and ok: "LFUCache_incrementFreq c item = Inr c'"
  shows "LFU_cap_inv c'"
proof -
  note C = LFU_cap_inv_D[OF inv]
  note D = LFU_inv_D[OF C(1)]
  show ?thesis
  proof (rule LFU_cap_incrementFreq[OF item D(1)[OF item] _ _ _ C(2) _ _ C(5) C(6) _ ok])
    show "\<And>k it. map_of (lfu_items c) k = Some it \<Longrightarrow> lfuItem_key it = k" by (rule D(1))
    show "\<And>k it. map_of (lfu_items c) k = Some it \<Longrightarrow> k \<noteq> key \<Longrightarrow>
                  lfuItem_freqNode it = Some (lfuItem_frequency it)" by (rule C(3))
    show "\<And>f node k. lfu_freqs c f = Some node \<Longrightarrow> k \<in> set (freqNode_items node) \<Longrightarrow>
                  \<exists>it. map_of (lfu_items c) k = Some it \<and> lfuItem_freqNode it = Some f"
      by (rule D(3))
    show "lfuItem_freqNode item = None \<and> lfuItem_frequency item = 0 \<or>
               lfuItem_freqNode item = Some (lfuItem_frequency item)"
      using C(3)[OF item] by simp
    show "\<And>f node. lfu_freqs c f = Some node \<Longrightarrow> freqNode_freq node = f" by (rule C(4))
    show "lfu_capacity c \<le> int (length (lfu_items c)) \<Longrightarrow>
                 \<exists>node. lfu_freqs c (lfu_minFreq c) = Some node \<and> freqNode_items node \<noteq> []"
      by (rule C(7))
  qed
qed

lemma LFU_cap_overwrite:
  assumes inv: "LFU_cap_inv c" and item: "map_of (lfu_items c) key = Some item"
  shows "LFU_cap_inv (c\<lparr>lfu_items := AList.update key
           (item\<lparr>lfuItem_value := v, lfuItem_expiration := ex\<rparr>) (lfu_items c)\<rparr>)"
proof -
  note C = LFU_cap_inv_D[OF inv]
  note D = LFU_inv_D[OF C(1)]
  let ?item1 = "item\<lparr>lfuItem_value := v, lfuItem_expiration := ex\<rparr>"
  let ?c0 = "c\<lparr>lfu_items := AList.update key ?item1 (lfu_items c)\<rparr>"
  have m0: "map_of (lfu_items ?c0) = (map_of (lfu_items c))(key \<mapsto> ?item1)"
    by (simp add: update_conv')
  have len: "length (lfu_items ?c0) = length (lfu_items c)"
    using item by (simp add: length_alist_update)
  have old: "\<exists>it0. map_of (lfu_items c) k = Some it0 \<and> lfuItem_key it = lfuItem_key it0 \<and>
               lfuItem_freqNode it = lfuItem_freqNode it0 \<and>
               lfuItem_frequency it = lfuItem_frequency it0"
    if "map_of (lfu_items ?c0) k = Some it" for k it
    using that item unfolding m0 by (cases "k = key") auto
  have linv: "LFU_inv ?c0"
    unfolding LFU_inv_def
  proof (intro conjI allI impI)
    fix k it assume a: "map_of (lfu_items ?c0) k = Some it"
    from old[OF a] obtain it0 where it0: "map_of (lfu_items c) k = Some it0"
      "lfuItem_key it = lfuItem_key it0" "lfuItem_freqNode it = lfuItem_freqNode it0" by blast
    from D(1)[OF it0(1)] it0(2) show "lfuItem_key it = k" by simp
    from D(2)[OF it0(1)] it0(3) show "\<exists>f. lfuItem_freqNode it = Some f" by simp
  next
    fix f node k assume "lfu_freqs ?c0 f = Some node" "k \<in> set (freqNode_items node)"
    with D(3)[of f node k] obtain it where
      it: "map_of (lfu_items c) k = Some it" "lfuItem_freqNode it = Some f" by auto
    show "\<exists>it. map_of (lfu_items ?c0) k = Some it \<and> lfuItem_freqNode it = Some f"
    proof (cases "k = key")
      case True
      with it item show ?thesis unfolding m0 by simp
    next
      case False
      with it show ?thesis unfolding m0 by simp
    qed
  qed
  show ?thesis
    unfolding LFU_cap_inv_def
  proof (intro conjI allI impI)
    show "LFU_inv ?c0" by (rule linv)
    show "distinct (map fst (lfu_items ?c0))" using C(2) by (simp add: distinct_update)
    show "1 \<le> lfu_capacity ?c0" using C(5) by simp
    show "int (length (lfu_items ?c0)) \<le> lfu_capacity ?c0" using C(6) len by simp
  next
    fix k it assume a: "map_of (lfu_items ?c0) k = Some it"
    from old[OF a] obtain it0 where it0: "map_of (lfu_items c) k = Some it0"
      "lfuItem_freqNode it = lfuItem_freqNode it0" "lfuItem_frequency it = lfuItem_frequency it0"
      by blast
    from C(3)[OF it0(1)] it0(2,3) show "lfuItem_freqNode it = Some (lfuItem_frequency it)" by simp
  next
    fix f node assume "lfu_freqs ?c0 f = Some node"
    then show "freqNode_freq node = f" using C(4) by simp
  next
    assume "lfu_capacity ?c0 \<le> int (length (lfu_items ?c0))"
    with len have "lfu_capacity c \<le> int (length (lfu_items c))" by simp
    from C(7)[OF this]
    show "\<exists>node. lfu_freqs ?c0 (lfu_minFreq ?c0) = Some node \<and> freqNode_items node \<noteq> []"
      by simp
  qed
qed

lemma LFU_cap_evict:
  assumes inv: "LFU_cap_inv c" and full: "lfu_capacity c \<le> int (length (lfu_items c))"
    and ok: "LFUCache_evict c r = Inr c'"
  shows "LFU_cap_inv c'" and "length (lfu_items c') + 1 = length (lfu_items c)"
    and "lfu_capacity c' = lfu_capacity c"
    and "map_of (lfu_items c) key = None \<Longrightarrow> map_of (lfu_items c') key = None"
proof -
  note C = LFU_cap_inv_D[OF inv]
  note D = LFU_inv_D[OF C(1)]
  from C(7)[OF full] obtain node where node: "lfu_freqs c (lfu_minFreq c) = Some node"
    "freqNode_items node \<noteq> []" by blast
  let ?k = "freqNode_items node ! (r mod length (freqNode_items node))"
  from node(2) have "?k \<in> set (freqNode_items node)" by simp
  from D(3)[OF node(1) this] obtain item where item: "map_of (lfu_items c) ?k = Some item"
    by blast
  from ok node item have rm: "LFUCache_remove c item = Inr c'"
    unfolding LFUCache_evict_def by (cases "freqNode_items node") simp_all
  from LFU_cap_remove[OF inv item rm]
  show "LFU_cap_inv c'" "length (lfu_items c') + 1 = length (lfu_items c)"
    "lfu_capacity c' = lfu_capacity c"
    and "map_of (lfu_items c) key = None \<Longrightarrow> map_of (lfu_items c') key = None"
    by simp_all
qed

lemma LFU_cap_Set:
  assumes inv: "LFU_cap_inv c" and ok: "LFUCache_Set c key v ttl now r = Inr c'"
  shows "LFU_cap_inv c'"
proof (cases "map_of (lfu_items c) key")
  case (Some item)
  define ex where "ex = (if ttl > 0 then now + ttl else 0)"
  let ?item1 = "item\<lparr>lfuItem_value := v, lfuItem_expiration := ex\<rparr>"
  let ?c0 = "c\<lparr>lfu_items := AList.update key ?item1 (lfu_items c)\<rparr>"
  from ok Some have inc: "LFUCache_incrementFreq ?c0 ?item1 = Inr c'"
    unfolding LFUCache_Set_def Let_def ex_def by simp
  have "map_of (lfu_items ?c0) key = Some ?item1" by (simp add: update_conv')
  from LFU_cap_hit[OF LFU_cap_overwrite[OF inv Some] this inc] show ?thesis .
next
  case None
  note C = LFU_cap_inv_D[OF inv]
  define ex where "ex = (if ttl > 0 then now + ttl else 0)"
  define item0 where "item0 = \<lparr>lfuItem_key = key, lfuItem_value = v, lfuItem_frequency = 0,
                               lfuItem_expiration = ex, lfuItem_freqNode = None\<rparr>"
  from ok None obtain c1 where
    ev: "(if int (length (lfu_items c)) \<ge> lfu_capacity c then LFUCache_evict c r else Inr c) = Inr c1"
    and inc: "LFUCache_incrementFreq (c1\<lparr>lfu_items := AList.update key item0 (lfu_items c1)\<rparr>) item0
                = Inr c'"
    unfolding LFUCache_Set_def Let_def item0_def ex_def by (auto split: sum.splits)
  have c1: "LFU_cap_inv c1 \<and> int (length (lfu_items c1)) < lfu_capacity c1 \<and>
            map_of (lfu_items c1) key = None"
  proof (cases "int (length (lfu_items c)) \<ge> lfu_capacity c")
    case True
    with ev have e: "LFUCache_evict c r = Inr c1" by simp
    from LFU_cap_evict(1,2,3)[OF inv True e] LFU_cap_evict(4)[OF inv True e None] C(6)
    show ?thesis by auto
  next
    case False
    with ev inv None show ?thesis by auto
  qed
  then have inv1: "LFU_cap_inv c1" and lt: "int (length (lfu_items c1)) < lfu_capacity c1"
    and none1: "map_of (lfu_items c1) key = None" by simp_all
  note C1 = LFU_cap_inv_D[OF inv1]
  note D1 = LFU_inv_D[OF C1(1)]
  let ?c0 = "c1\<lparr>lfu_items := AList.update key item0 (lfu_items c1)\<rparr>"
  have m0: "map_of (lfu_items ?c0) = (map_of (lfu_items c1))(key \<mapsto> item0)"
    by (simp add: update_conv')
  have len0: "length (lfu_items ?c0) = length (lfu_items c1) + 1"
    using none1 by (simp add: length_alist_update)
  have k0: "lfuItem_key item0 = key" unfolding item0_def by simp
  show ?thesis
  proof (rule LFU_cap_incrementFreq[OF _ k0 _ _ _ _ _ _ _ _ _ inc])
    show "map_of (lfu_items ?c0) key = Some item0" unfolding m0 by simp
  next
    fix k it assume "map_of (lfu_items ?c0) k = Some it"
    then show "lfuItem_key it = k" unfolding m0 using k0 D1(1) by (cases "k = key") auto
  next
    fix k it assume "map_of (lfu_items ?c0) k = Some it" "k \<noteq> key"
    then show "lfuItem_freqNode it = Some (lfuItem_frequency it)"
      unfolding m0 using C1(3) by auto
  next
    fix f node k assume "lfu_freqs ?c0 f = Some node" "k \<in> set (freqNode_items node)"
    with D1(3)[of f node k] obtain it where
      it: "map_of (lfu_items c1) k = Some it" "lfuItem_freqNode it = Some f" by auto
    with none1 have "k \<noteq> key" by auto
    with it show "\<exists>it. map_of (lfu_items ?c0) k = Some it \<and> lfuItem_freqNode it = Some f"
      unfolding m0 by simp
  next
    show "distinct (map fst (lfu_items ?c0))" using C1(2) by (simp add: distinct_update)
    show "lfuItem_freqNode item0 = None \<and> lfuItem_frequency item0 = 0 \<or>
          lfuItem_freqNode item0 = Some (lfuItem_frequency item0)"
      unfolding item0_def by simp
    show "\<And>f node. lfu_freqs ?c0 f = Some node \<Longrightarrow> freqNode_freq node = f"
      using C1(4) by simp
    show "1 \<le> lfu_capacity ?c0" using C1(5) by simp
    show "int (length (lfu_items ?c0)) \<le> lfu_capacity ?c0" using lt len0 by simp
    show "lfuItem_frequency item0 \<noteq> 0 \<Longrightarrow> lfu_capacity ?c0 \<le> int (length (lfu_items ?c0)) \<Longrightarrow>
          \<exists>node. lfu_freqs ?c0 (lfu_minFreq ?c0) = Some node \<and> freqNode_items node \<noteq> []"
      unfolding item0_def by simp
  qed
qed

lemma LFU_cap_Get:
  assumes inv: "LFU_cap_inv c" and ok: "LFUCache_Get c key now = Inr (v, found, c')"
  shows "LFU_cap_inv c'"
proof (cases "map_of (lfu_items c) key")
  case None
  with ok inv show ?thesis by (simp add: LFUCache_Get_def)
next
  case (Some item)
  show ?thesis
  proof (cases "lfuItem_expiration item > 0 \<and> lfuItem_expiration item < now")
    case True
    with ok Some have "LFUCache_remove c item = Inr c'"
      by (auto simp: LFUCache_Get_def split: sum.splits)
    from LFU_cap_remove(1)[OF inv Some this] show ?thesis .
  next
    case False
    with ok Some have "LFUCache_incrementFreq c item = Inr c'"
      by (auto simp: LFUCache_Get_def split: sum.splits)
    from LFU_cap_hit[OF inv Some this] show ?thesis .
  qed
qed

lemma LFU_cap_Delete:
  assumes inv: "LFU_cap_inv c" and ok: "LFUCache_Delete c key = Inr c'"
  shows "LFU_cap_inv c'"
proof (cases "map_of (lfu_items c) key")
  case None
  with ok inv show ?thesis by (simp add: LFUCache_Delete_def)
next
  case (Some item)
  with ok have "LFUCache_remove c item = Inr c'" by (simp add: LFUCache_Delete_def)
  from LFU_cap_remove(1)[OF inv Some this] show ?thesis .
qed

lemma LFU_cap_Flush: "LFU_cap_inv c \<Longrightarrow> LFU_cap_inv (LFUCache_Flush c)"
  unfolding LFU_cap_inv_def by (simp add: LFUCache_Flush_def LFU_inv_Flush[unfolded LFUCache_Flush_def])

lemma LFU_cap_call:
  assumes "LFU_cap_inv c" and "LFUCache_call c x = Inr c'"
  shows "LFU_cap_inv c'"
proof (cases x)
  case (Set k v ttl now r)
  with assms show ?thesis by (auto dest: LFU_cap_Set)
next
  case (Get k now)
  with assms obtain v found where "LFUCache_Get c k now = Inr (v, found, c')"
    by (auto split: sum.splits)
  with assms(1) show ?thesis by (rule LFU_cap_Get)
next
  case (Delete k)
  with assms show ?thesis by (auto dest: LFU_cap_Delete)
next
  case Flush
  with assms show ?thesis by (auto simp: LFU_cap_Flush)
qed

lemma LFU_cap_run: "LFU_cap_inv c \<Longrightarrow> run LFUCache_call c xs = Inr c' \<Longrightarrow> LFU_cap_inv c'"
proof (induction xs arbitrary: c)
  case Nil
  then show ?case by simp
next
  case (Cons x xs)
  then show ?case by (auto split: sum.splits dest: LFU_cap_call)
qed

lemma LFUCache_remove_capacity: "LFUCache_remove c item = Inr c' \<Longrightarrow> lfu_capacity c' = lfu_capacity c"
  by (auto simp: LFUCache_remove_def Let_def leaveNode_fields split: option.splits)

lemma LFUCache_evict_capacity: "LFUCache_evict c r = Inr c' \<Longrightarrow> lfu_capacity c' = lfu_capacity c"
  by (auto simp: LFUCache_evict_def dest: LFUCache_remove_capacity split: option.splits list.splits)

lemma LFUCache_Set_capacity:
  assumes "LFUCache_Set c key v ttl now r = Inr c'"
  shows "lfu_capacity c' = lfu_capacity c"
proof (cases "map_of (lfu_items c) key")
  case (Some item)
  define ex where "ex = (if ttl > 0 then now + ttl else 0)"
  let ?item1 = "item\<lparr>lfuItem_value := v, lfuItem_expiration := ex\<rparr>"
  let ?c0 = "c\<lparr>lfu_items := AList.update key ?item1 (lfu_items c)\<rparr>"
  from assms Some have "LFUCache_incrementFreq ?c0 ?item1 = Inr c'"
    unfolding LFUCache_Set_def Let_def ex_def by simp
  from incrementFreq_result(2)[OF this] show ?thesis by simp
next
  case None
  with assms obtain c1 item0 where
    ev: "(if int (length (lfu_items c)) \<ge> lfu_capacity c then LFUCache_evict c r else Inr c) = Inr c1"
    and inc: "LFUCache_incrementFreq (c1\<lparr>lfu_items := AList.update key item0 (lfu_items c1)\<rparr>) item0
                = Inr c'"
    unfolding LFUCache_Set_def Let_def by (auto split: sum.splits)
  from ev have "lfu_capacity c1 = lfu_capacity c"
    by (auto split: if_splits dest: LFUCache_evict_capacity)
  with incrementFreq_result(2)[OF inc] show ?thesis by simp
qed

lemma LFUCache_Get_capacity:
  assumes "LFUCache_Get c key now = Inr (v, found, c')"
  shows "lfu_capacity c' = lfu_capacity c"
  using assms unfolding LFUCache_Get_def
  by (auto split: option.splits if_splits sum.splits
      dest: LFUCache_remove_capacity incrementFreq_result(2))

lemma LFUCache_call_capacity:
  assumes "LFUCache_call c x = Inr c'"
  shows "lfu_capacity c' = lfu_capacity c"
proof (cases x)
  case (Set k v ttl now r)
  with assms show ?thesis by (auto dest: LFUCache_Set_capacity)
next
  case (Get k now)
  with assms obtain v found where "LFUCache_Get c k now = Inr (v, found, c')"
    by (auto split: sum.splits)
  then show ?thesis by (rule LFUCache_Get_capacity)
next
  case (Delete k)
  with assms show ?thesis
    by (auto simp: LFUCache_Delete_def dest: LFUCache_remove_capacity split: option.splits)
next
  case Flush
  with assms show ?thesis by (auto simp: LFUCache_Flush_def)
qed

lemma LFU_cap_run_capacity:
  "run LFUCache_call c xs = Inr c' \<Longrightarrow> lfu_capacity c' = lfu_capacity c"
proof (induction xs arbitrary: c)
  case Nil
  then show ?case by simp
next
  case (Cons x xs)
  from Cons.prems obtain c1 where s: "LFUCache_call c x = Inr c1"
    and r: "run LFUCache_call c1 xs = Inr c'" by (auto split: sum.splits)
  from LFUCache_call_capacity[OF s] Cons.IH[OF r] show ?case by simp
qed

lemma LFU_capacity_reachable:
  assumes "1 \<le> n" and "run LFUCache_call (NewLFUCache n) xs = Inr c"
  shows "int (length (lfu_items c)) \<le> n"
proof -
  have "LFU_cap_inv (NewLFUCache n)"
    using assms(1) by (simp add: LFU_cap_inv_def LFU_inv_New) (simp add: NewLFUCache_def)
  from LFU_cap_run[OF this assms(2)] have "LFU_cap_inv c" .
  from LFU_cap_inv_D(6)[OF this] LFU_cap_run_capacity[OF assms(2)]
  show ?thesis by (simp add: NewLFUCache_def)
qed

subsection \<open>The pointers of LFUCache\<close>

text \<open>
  In every state reached from \<^verbatim>\<open>NewLFUCache\<close> with capacity \<open>\<ge> 1\<close>, the node an item
  points to is held by \<^verbatim>\<open>freqs\<close> and lists the key of the item. With \<open>LFU_inv\<close> (a key
  listed in a node is the key of an item of \<^verbatim>\<open>items\<close>) this is what makes the keyed
  reading of the pointers exact: the two lookups of the model that have no counterpart in
  the source, the node of an item in \<open>LFUCache_leaveNode\<close> and the item of a listed key
  in \<open>LFUCache_evict\<close>, always succeed there.
\<close>

lemma leaveNode_keeps:
  assumes freq: "\<And>f node. lfu_freqs c f = Some node \<Longrightarrow> freqNode_freq node = f"
    and node: "lfu_freqs c g = Some node" "k \<in> set (freqNode_items node)" and ne: "k \<noteq> key"
  shows "\<exists>node'. lfu_freqs (LFUCache_leaveNode c f key) g = Some node' \<and>
                 k \<in> set (freqNode_items node')"
proof (cases "g = f")
  case False
  have "lfu_freqs (LFUCache_leaveNode c f key) g = lfu_freqs c g"
  proof (rule leaveNode_other)
    show "\<And>node. lfu_freqs c f = Some node \<Longrightarrow> freqNode_freq node = f" by (rule freq)
    show "g \<noteq> f" by (rule False)
  qed
  with node show ?thesis by simp
next
  case True
  from freq node(1) have "freqNode_freq node = g" by simp
  moreover from node(2) ne have in': "k \<in> set (removeAll key (freqNode_items node))" by simp
  moreover from length_pos_if_in_set[OF in']
  have "removeAll key (freqNode_items node) \<noteq> []" by simp
  ultimately show ?thesis
    using True node(1)
    by (simp add: LFUCache_leaveNode_def LFUCache_removeFreqNode_def Let_def)
qed

lemma LFU_linked_remove:
  assumes inv: "LFU_cap_inv c" and linked: "LFU_linked c"
    and item: "map_of (lfu_items c) key = Some item"
    and ok: "LFUCache_remove c item = Inr c'"
  shows "LFU_linked c'"
proof -
  note C = LFU_cap_inv_D[OF inv]
  from LFU_inv_D(1)[OF C(1) item] have k: "lfuItem_key item = key" .
  from C(3)[OF item] obtain f where f: "lfuItem_freqNode item = Some f" by simp
  let ?c1 = "c\<lparr>lfu_items := AList.delete key (lfu_items c)\<rparr>"
  from ok have c': "c' = LFUCache_leaveNode ?c1 f key"
    by (simp add: LFUCache_remove_def Let_def k f)
  have freq1: "\<And>f node. lfu_freqs ?c1 f = Some node \<Longrightarrow> freqNode_freq node = f"
    using C(4) by simp
  show ?thesis
    unfolding LFU_linked_def
  proof (intro allI impI)
    fix k' it assume "map_of (lfu_items c') k' = Some it"
    then have a: "k' \<noteq> key" "map_of (lfu_items c) k' = Some it"
      unfolding c' by (auto simp: leaveNode_items delete_conv' split: if_splits)
    from linked a(2) obtain g node where g: "lfuItem_freqNode it = Some g"
      "lfu_freqs c g = Some node" "k' \<in> set (freqNode_items node)"
      unfolding LFU_linked_def by blast
    from g(2) have "lfu_freqs ?c1 g = Some node" by simp
    from leaveNode_keeps[OF freq1 this g(3) a(1), of f] g(1)
    show "\<exists>f node. lfuItem_freqNode it = Some f \<and> lfu_freqs c' f = Some node \<and>
                    k' \<in> set (freqNode_items node)"
      unfolding c' by blast
  qed
qed

lemma LFU_linked_incrementFreq:
  assumes key: "lfuItem_key item = key"
    and freq: "\<And>f node. lfu_freqs c f = Some node \<Longrightarrow> freqNode_freq node = f"
    and others: "\<And>k it. map_of (lfu_items c) k = Some it \<Longrightarrow> k \<noteq> key \<Longrightarrow>
                   \<exists>f node. lfuItem_freqNode it = Some f \<and> lfu_freqs c f = Some node \<and>
                             k \<in> set (freqNode_items node)"
    and ok: "LFUCache_incrementFreq c item = Inr c'"
  shows "LFU_linked c'"
proof -
  let ?nf = "lfuItem_frequency item + 1"
  let ?item1 = "item\<lparr>lfuItem_frequency := ?nf, lfuItem_freqNode := Some ?nf\<rparr>"
  from incrementFreq_freqs[OF ok] obtain c1 node1 where
    c1: "c1 = (case lfuItem_freqNode item of None \<Rightarrow> c
                 | Some f \<Rightarrow> LFUCache_leaveNode c f (lfuItem_key item))"
    and node1: "node1 = (case lfu_freqs c1 ?nf of
                     Some node \<Rightarrow>
                       node\<lparr>freqNode_items := List.insert (lfuItem_key item) (freqNode_items node)\<rparr>
                   | None \<Rightarrow> \<lparr>freqNode_freq = ?nf, freqNode_items = [lfuItem_key item]\<rparr>)"
    and fr: "lfu_freqs c' = (lfu_freqs c1)(?nf \<mapsto> node1)" by blast
  from incrementFreq_result(1)[OF ok] key
  have m': "map_of (lfu_items c') = (map_of (lfu_items c))(key \<mapsto> ?item1)"
    by (simp add: update_conv')
  have key_in: "key \<in> set (freqNode_items node1)"
    unfolding node1 using key by (auto split: option.splits)
  have keep1: "\<exists>node'. lfu_freqs c1 g = Some node' \<and> k \<in> set (freqNode_items node')"
    if "lfu_freqs c g = Some node" "k \<in> set (freqNode_items node)" "k \<noteq> key" for g node k
  proof (cases "lfuItem_freqNode item")
    case None
    with that c1 show ?thesis by simp
  next
    case (Some f0)
    from leaveNode_keeps[OF freq that, of f0] Some c1 key show ?thesis by simp
  qed
  show ?thesis
    unfolding LFU_linked_def
  proof (intro allI impI)
    fix k it assume a: "map_of (lfu_items c') k = Some it"
    show "\<exists>f node. lfuItem_freqNode it = Some f \<and> lfu_freqs c' f = Some node \<and>
                    k \<in> set (freqNode_items node)"
    proof (cases "k = key")
      case True
      with a m' have "it = ?item1" by simp
      with fr key_in True show ?thesis by simp
    next
      case False
      with a m' have old: "map_of (lfu_items c) k = Some it" by simp
      from others[OF old False] obtain g node where g: "lfuItem_freqNode it = Some g"
        "lfu_freqs c g = Some node" "k \<in> set (freqNode_items node)" by blast
      from keep1[OF g(2) g(3) False] obtain node' where
        n': "lfu_freqs c1 g = Some node'" "k \<in> set (freqNode_items node')" by blast
      show ?thesis
      proof (cases "g = ?nf")
        case True
        with n' have "k \<in> set (freqNode_items node1)" unfolding node1 by simp
        with fr True g(1) show ?thesis by simp
      next
        case False
        with fr n' g(1) show ?thesis by simp
      qed
    qed
  qed
qed

lemma LFU_linked_hit:
  assumes inv: "LFU_cap_inv c" and linked: "LFU_linked c"
    and item: "map_of (lfu_items c) key = Some item"
    and ok: "LFUCache_incrementFreq c item = Inr c'"
  shows "LFU_linked c'"
proof (rule LFU_linked_incrementFreq[OF _ _ _ ok])
  show "lfuItem_key item = key" using LFU_inv_D(1)[OF LFU_cap_inv_D(1)[OF inv] item] .
  show "\<And>f node. lfu_freqs c f = Some node \<Longrightarrow> freqNode_freq node = f"
    by (rule LFU_cap_inv_D(4)[OF inv])
  show "\<And>k it. map_of (lfu_items c) k = Some it \<Longrightarrow> k \<noteq> key \<Longrightarrow>
                   \<exists>f node. lfuItem_freqNode it = Some f \<and> lfu_freqs c f = Some node \<and>
                             k \<in> set (freqNode_items node)"
    using linked unfolding LFU_linked_def by blast
qed

lemma LFU_linked_evict:
  assumes inv: "LFU_cap_inv c" and linked: "LFU_linked c"
    and full: "lfu_capacity c \<le> int (length (lfu_items c))"
    and ok: "LFUCache_evict c r = Inr c'"
  shows "LFU_linked c'"
proof -
  note C = LFU_cap_inv_D[OF inv]
  from C(7)[OF full] obtain node where node: "lfu_freqs c (lfu_minFreq c) = Some node"
    "freqNode_items node \<noteq> []" by blast
  let ?k = "freqNode_items node ! (r mod length (freqNode_items node))"
  from node(2) have "?k \<in> set (freqNode_items node)" by simp
  from LFU_inv_D(3)[OF C(1) node(1) this] obtain item where
    item: "map_of (lfu_items c) ?k = Some item" by blast
  from ok node item have "LFUCache_remove c item = Inr c'"
    unfolding LFUCache_evict_def by (cases "freqNode_items node") simp_all
  from LFU_linked_remove[OF inv linked item this] show ?thesis .
qed

lemma LFU_linked_Set:
  assumes inv: "LFU_cap_inv c" and linked: "LFU_linked c"
    and ok: "LFUCache_Set c key v ttl now r = Inr c'"
  shows "LFU_linked c'"
proof (cases "map_of (lfu_items c) key")
  case (Some item)
  define ex where "ex = (if ttl > 0 then now + ttl else 0)"
  let ?item1 = "item\<lparr>lfuItem_value := v, lfuItem_expiration := ex\<rparr>"
  let ?c0 = "c\<lparr>lfu_items := AList.update key ?item1 (lfu_items c)\<rparr>"
  from ok Some have inc: "LFUCache_incrementFreq ?c0 ?item1 = Inr c'"
    unfolding LFUCache_Set_def Let_def ex_def by simp
  show ?thesis
  proof (rule LFU_linked_incrementFreq[OF _ _ _ inc])
    show "lfuItem_key ?item1 = key"
      using LFU_inv_D(1)[OF LFU_cap_inv_D(1)[OF inv] Some] by simp
    show "\<And>f node. lfu_freqs ?c0 f = Some node \<Longrightarrow> freqNode_freq node = f"
      using LFU_cap_inv_D(4)[OF inv] by simp
  next
    fix k it assume "map_of (lfu_items ?c0) k = Some it" "k \<noteq> key"
    then have "map_of (lfu_items c) k = Some it" by (simp add: update_conv')
    with linked show "\<exists>f node. lfuItem_freqNode it = Some f \<and> lfu_freqs ?c0 f = Some node \<and>
                             k \<in> set (freqNode_items node)"
      unfolding LFU_linked_def by simp
  qed
next
  case None
  define ex where "ex = (if ttl > 0 then now + ttl else 0)"
  define item0 where "item0 = \<lparr>lfuItem_key = key, lfuItem_value = v, lfuItem_frequency = 0,
                               lfuItem_expiration = ex, lfuItem_freqNode = None\<rparr>"
  from ok None obtain c1 where
    ev: "(if int (length (lfu_items c)) \<ge> lfu_capacity c then LFUCache_evict c r else Inr c) = Inr c1"
    and inc: "LFUCache_incrementFreq (c1\<lparr>lfu_items := AList.update key item0 (lfu_items c1)\<rparr>) item0
                = Inr c'"
    unfolding LFUCache_Set_def Let_def item0_def ex_def by (auto split: sum.splits)
  have c1: "LFU_cap_inv c1 \<and> LFU_linked c1"
  proof (cases "int (length (lfu_items c)) \<ge> lfu_capacity c")
    case True
    with ev have e: "LFUCache_evict c r = Inr c1" by simp
    from LFU_cap_evict(1)[OF inv True e] LFU_linked_evict[OF inv linked True e]
    show ?thesis by simp
  next
    case False
    with ev inv linked show ?thesis by auto
  qed
  let ?c0 = "c1\<lparr>lfu_items := AList.update key item0 (lfu_items c1)\<rparr>"
  show ?thesis
  proof (rule LFU_linked_incrementFreq[OF _ _ _ inc])
    show "lfuItem_key item0 = key" unfolding item0_def by simp
    show "\<And>f node. lfu_freqs ?c0 f = Some node \<Longrightarrow> freqNode_freq node = f"
      using LFU_cap_inv_D(4)[of c1] c1 by simp
  next
    fix k it assume "map_of (lfu_items ?c0) k = Some it" "k \<noteq> key"
    then have "map_of (lfu_items c1) k = Some it" by (simp add: update_conv')
    with c1 show "\<exists>f node. lfuItem_freqNode it = Some f \<and> lfu_freqs ?c0 f = Some node \<and>
                             k \<in> set (freqNode_items node)"
      unfolding LFU_linked_def by simp
  qed
qed

lemma LFU_linked_call:
  assumes inv: "LFU_cap_inv c" and linked: "LFU_linked c" and ok: "LFUCache_call c x = Inr c'"
  shows "LFU_linked c'"
proof (cases x)
  case (Set k v ttl now r)
  with ok LFU_linked_Set[OF inv linked] show ?thesis by auto
next
  case (Get k now)
  with ok obtain v found where get: "LFUCache_Get c k now = Inr (v, found, c')"
    by (auto split: sum.splits)
  show ?thesis
  proof (cases "map_of (lfu_items c) k")
    case None
    with get linked show ?thesis by (simp add: LFUCache_Get_def)
  next
    case (Some item)
    show ?thesis
    proof (cases "lfuItem_expiration item > 0 \<and> lfuItem_expiration item < now")
      case True
      with get Some have "LFUCache_remove c item = Inr c'"
        by (auto simp: LFUCache_Get_def split: sum.splits)
      from LFU_linked_remove[OF inv linked Some this] show ?thesis .
    next
      case False
      with get Some have "LFUCache_incrementFreq c item = Inr c'"
        by (auto simp: LFUCache_Get_def split: sum.splits)
      from LFU_linked_hit[OF inv linked Some this] show ?thesis .
    qed
  qed
next
  case (Delete k)
  show ?thesis
  proof (cases "map_of (lfu_items c) k")
    case None
    with ok Delete linked show ?thesis by (simp add: LFUCache_Delete_def)
  next
    case (Some item)
    with ok Delete have "LFUCache_remove c item = Inr c'" by (simp add: LFUCache_Delete_def)
    from LFU_linked_remove[OF inv linked Some this] show ?thesis .
  qed
next
  case Flush
  with ok show ?thesis by (auto simp: LFU_linked_def LFUCache_Flush_def)
qed

lemma LFU_linked_run:
  "LFU_cap_inv c \<Longrightarrow> LFU_linked c \<Longrightarrow> run LFUCache_call c xs = Inr c' \<Longrightarrow> LFU_linked c'"
proof (induction xs arbitrary: c)
  case Nil
  then show ?case by simp
next
  case (Cons x xs)
  from Cons.prems(3) obtain c1 where s: "LFUCache_call c x = Inr c1"
    and r: "run LFUCache_call c1 xs = Inr c'" by (auto split: sum.splits)
  from Cons.IH[OF LFU_cap_call[OF Cons.prems(1) s] LFU_linked_call[OF Cons.prems(1,2) s] r]
  show ?case .
qed

lemma LFU_linked_reachable:
  assumes "1 \<le> n" and "run LFUCache_call (NewLFUCache n) xs = Inr c"
  shows "LFU_linked c"
proof -
  have "LFU_cap_inv (NewLFUCache n)"
    using assms(1) by (simp add: LFU_cap_inv_def LFU_inv_New) (simp add: NewLFUCache_def)
  moreover have "LFU_linked (NewLFUCache n)"
    by (simp add: LFU_linked_def NewLFUCache_def)
  ultimately show ?thesis using assms(2) by (rule LFU_linked_run)
qed

subsection \<open>Set followed by Get\<close>

text \<open>
  The part of C9 that the code keeps: on MemoryCache and LRUCache, \<^verbatim>\<open>Set(k, v, ttl)\<close> at
  time \<open>now\<close> followed by \<^verbatim>\<open>Get(k)\<close> at time \<open>now'\<close> returns (v, true) when
  \<open>ttl \<le> 0\<close> or \<open>now' - now < ttl\<close>; on ARCCache it does so whenever \<^verbatim>\<open>Set\<close> returns;
  on LFUCache whenever both calls return.
\<close>

lemma MemoryCache_roundtrip:
  assumes "ttl \<le> 0 \<or> now' < now + ttl"
  shows "MemoryCache_Get (MemoryCache_Set c k v ttl now) k now' =
           (v, True, MemoryCache_Set c k v ttl now)"
  using assms by (auto simp: MemoryCache_Get_def MemoryCache_Set_def Let_def)

lemma LRUCache_roundtrip:
  assumes "ttl \<le> 0 \<or> now' < now + ttl"
  shows "\<exists>lru'. LRUCache_Get (LRUCache_Set lru k v ttl now) k now' = (v, True, lru')"
proof (cases "lru_cache lru k")
  case None
  with assms show ?thesis
    by (auto simp: LRUCache_Get_def LRUCache_Set_def Let_def)
next
  case (Some e)
  with assms show ?thesis
    by (auto simp: LRUCache_Get_def LRUCache_Set_def Let_def)
qed

lemma incrementFreq_item:
  assumes "LFUCache_incrementFreq c item = Inr c'"
  shows "map_of (lfu_items c') (lfuItem_key item) =
           Some (item\<lparr>lfuItem_frequency := lfuItem_frequency item + 1,
                      lfuItem_freqNode := Some (lfuItem_frequency item + 1)\<rparr>)"
  using assms unfolding LFUCache_incrementFreq_def Let_def
  by (auto simp: update_conv' split: if_splits option.splits)

lemma LFUCache_roundtrip:
  assumes inv: "LFU_inv c" and live: "ttl \<le> 0 \<or> now' < now + ttl"
    and set: "LFUCache_Set c k v ttl now r = Inr c1"
    and get: "LFUCache_Get c1 k now' = Inr (v', found, c2)"
  shows "v' = v \<and> found"
proof -
  define ex where "ex = (if ttl > 0 then now + ttl else 0)"
  have "\<exists>item. lfuItem_key item = k \<and> lfuItem_value item = v \<and> lfuItem_expiration item = ex \<and>
          (\<exists>c0. LFUCache_incrementFreq c0 item = Inr c1)"
  proof (cases "map_of (lfu_items c) k")
    case None
    with set show ?thesis
      unfolding LFUCache_Set_def Let_def ex_def
      by (auto split: sum.splits if_splits intro!: exI)
  next
    case (Some item)
    from LFU_inv_D(1)[OF inv Some] have "lfuItem_key item = k" .
    with set Some show ?thesis
      unfolding LFUCache_Set_def Let_def ex_def
      by (auto intro!: exI[of _ "item\<lparr>lfuItem_value := v,
            lfuItem_expiration := (if ttl > 0 then now + ttl else 0)\<rparr>"])
  qed
  then obtain item c0 where item: "lfuItem_key item = k" "lfuItem_value item = v"
    "lfuItem_expiration item = ex" and inc: "LFUCache_incrementFreq c0 item = Inr c1"
    by blast
  from incrementFreq_item[OF inc] item(1)
  have stored: "map_of (lfu_items c1) k =
           Some (item\<lparr>lfuItem_frequency := lfuItem_frequency item + 1,
                      lfuItem_freqNode := Some (lfuItem_frequency item + 1)\<rparr>)" by simp
  from live have "\<not> (ex > 0 \<and> ex < now')" unfolding ex_def by auto
  with get stored item show ?thesis
    by (auto simp: LFUCache_Get_def split: sum.splits if_splits)
qed

lemma pushT1_lookup:
  "arc_cache (ARCCache_pushT1 c k item) k = Some (arc_next c)"
  "arc_elems (ARCCache_pushT1 c k item) (arc_next c) = item"
  by (simp_all add: ARCCache_pushT1_def Let_def)

lemma touch_lookup:
  assumes "arc_cache c k = Some elt"
  shows "\<exists>e. arc_cache (ARCCache_touch c k elt) k = Some e \<and>
              arc_elems (ARCCache_touch c k elt) e = arc_elems c elt"
  using assms by (auto simp: ARCCache_touch_def ARCCache_pushT2_def Let_def)

lemma ARCCache_roundtrip:
  assumes live: "ttl \<le> 0 \<or> now' < now + ttl"
    and set: "ARCCache_Set c k v ttl now = Inr c1"
  shows "\<exists>c2. ARCCache_Get c1 k now' = (v, True, c2)"
proof -
  define ex where "ex = (if ttl > 0 then now + ttl else 0)"
  have "\<exists>e. arc_cache c1 k = Some e \<and> arcItem_value (arc_elems c1 e) = v \<and>
             arcItem_expiration (arc_elems c1 e) = ex"
  proof (cases "arc_cache c k")
    case (Some elt)
    let ?c0 = "c\<lparr>arc_elems := (arc_elems c)
                 (elt := (arc_elems c elt)\<lparr>arcItem_value := v, arcItem_expiration := ex\<rparr>)\<rparr>"
    have c1: "c1 = ARCCache_touch ?c0 k elt"
      using set Some unfolding ARCCache_Set_def Let_def ex_def by simp
    have "arc_cache ?c0 k = Some elt" using Some by simp
    from touch_lookup[OF this] show ?thesis unfolding c1 by auto
  next
    case None
    with set obtain c0 where
      "c1 = ARCCache_pushT1 c0 k \<lparr>arcItem_key = k, arcItem_value = v, arcItem_expiration = ex\<rparr>"
      unfolding ARCCache_Set_def Let_def ex_def by (auto split: sum.splits)
    then show ?thesis by (simp add: pushT1_lookup)
  qed
  then obtain e where e: "arc_cache c1 k = Some e" "arcItem_value (arc_elems c1 e) = v"
    "arcItem_expiration (arc_elems c1 e) = ex" by blast
  from live have "\<not> (ex > 0 \<and> ex < now')" unfolding ex_def by auto
  with e show ?thesis by (auto simp: ARCCache_Get_def Let_def)
qed

end
